theory Spec2Isabelle
  imports Main "HOL-Library.Multiset" "HOL-Library.List_Lexorder" "HOL-Library.Product_Lexorder"
begin

section \<open>Python dictionaries with string keys\<close>

text \<open>
  A Python \<open>dict\<close> keeps its items in insertion order and holds every key once.  It is
  modelled as an association list; \<open>distinct (map fst d)\<close> is the invariant that every
  Python dictionary satisfies.  \<open>map_of d k\<close> is \<open>d.get(k)\<close>.
\<close>

type_synonym sdict = "(string \<times> string) list"

text \<open>\<open>d[k] = v\<close>: an existing key keeps its position, a new key goes last.\<close>

fun setitem :: "('a \<times> 'b) list \<Rightarrow> 'a \<Rightarrow> 'b \<Rightarrow> ('a \<times> 'b) list" where
  "setitem [] k v = [(k, v)]"
| "setitem ((k', v') # d) k v =
     (if k' = k then (k', v) # d else (k', v') # setitem d k v)"

text \<open>\<open>d.update(e)\<close>: the items of \<open>e\<close> are stored one after the other.\<close>

definition update :: "('a \<times> 'b) list \<Rightarrow> ('a \<times> 'b) list \<Rightarrow> ('a \<times> 'b) list" where
  "update d e = fold (\<lambda>(k, v) r. setitem r k v) e d"

text \<open>
  \<open>d[k]\<close> at a place where the source reads a key it has just taken from the same
  dictionary; the value is unspecified for a missing key, and every theorem below that
  goes through such a read proves that the key is there.
\<close>

definition getitem :: "('a \<times> 'b) list \<Rightarrow> 'a \<Rightarrow> 'b" where
  "getitem d k = the (map_of d k)"

text \<open>\<open>d.get(k, default)\<close>.\<close>

definition get_default :: "('a \<times> 'b) list \<Rightarrow> 'a \<Rightarrow> 'b \<Rightarrow> 'b" where
  "get_default d k dflt = (case map_of d k of Some v \<Rightarrow> v | None \<Rightarrow> dflt)"

section \<open>Version objects\<close>

text \<open>
  \<open>packaging.version.Version\<close> is an external library.  Of a version object the
  repository uses: its comparison key (\<open>__eq__\<close>, \<open>__hash__\<close> and \<open>__lt__\<close> all look at
  the key only), its \<open>public\<close> string, and the flags \<open>is_prerelease\<close> and
  \<open>is_devrelease\<close>.  The constructor \<open>Version(s)\<close>, which raises \<open>InvalidVersion\<close> on a
  string that is not a PEP-440 version, is a parameter \<open>P\<close> of every function below;
  \<open>P s = None\<close> stands for the exception.  \<open>PEP440_RE.match(s)\<close> uses the regular
  expression of the constructor, so it succeeds exactly when \<open>P s \<noteq> None\<close>.
\<close>

datatype 'k version =
  Version (vkey: 'k) (public: string) (is_prerelease: bool) (is_devrelease: bool)

text \<open>
  A dictionary whose keys are compared through \<open>h\<close> (for version objects the key, for
  \<open>Version | None\<close> the optional key): storing under an equal key keeps the key object
  that is already there and replaces the value.
\<close>

fun setitem_on :: "('a \<Rightarrow> 'h) \<Rightarrow> ('a \<times> 'b) list \<Rightarrow> 'a \<Rightarrow> 'b \<Rightarrow> ('a \<times> 'b) list" where
  "setitem_on h [] k v = [(k, v)]"
| "setitem_on h ((k', v') # d) k v =
     (if h k' = h k then (k', v) # d else (k', v') # setitem_on h d k v)"

fun lookup_on :: "('a \<Rightarrow> 'h) \<Rightarrow> ('a \<times> 'b) list \<Rightarrow> 'a \<Rightarrow> 'b option" where
  "lookup_on h [] k = None"
| "lookup_on h ((k', v') # d) k = (if h k' = h k then Some v' else lookup_on h d k)"

definition getitem_on :: "('a \<Rightarrow> 'h) \<Rightarrow> ('a \<times> 'b) list \<Rightarrow> 'a \<Rightarrow> 'b" where
  "getitem_on h d k = the (lookup_on h d k)"

section \<open>Ordering a version dictionary\<close>

definition protected :: "string list" where
  "protected = [''latest'', ''main'', ''master'', ''stable'']"

text \<open>
  \<open>_reorder_versions\<close>, loop by loop: the protected keys that are present; the
  dictionary \<open>version_map\<close> from version object to label; the labels of its versions in
  decreasing order; and last everything that is not in \<open>retval\<close> yet.  The keys of
  \<open>version_map\<close> are pairwise different versions, so \<open>sorted(..., reverse=True)\<close> is the
  reverse of the ascending sort.
\<close>

definition reorder_protected :: "sdict \<Rightarrow> sdict" where
  "reorder_protected vdict =
     fold (\<lambda>key r. case map_of vdict key of Some v \<Rightarrow> setitem r key v | None \<Rightarrow> r)
       protected []"

definition reorder_version_map ::
  "(string \<Rightarrow> 'k version option) \<Rightarrow> sdict \<Rightarrow> ('k version \<times> string) list" where
  "reorder_version_map P vdict =
     fold (\<lambda>k m. case P k of Some ver \<Rightarrow> setitem_on vkey m ver k | None \<Rightarrow> m)
       (filter (\<lambda>k. k \<notin> set protected \<and> P k \<noteq> None) (map fst vdict)) []"

definition reorder_releases ::
  "sdict \<Rightarrow> ('k::linorder version \<times> string) list \<Rightarrow> sdict \<Rightarrow> sdict" where
  "reorder_releases vdict version_map retval =
     fold (\<lambda>ver r. setitem r (getitem_on vkey version_map ver)
                      (getitem vdict (getitem_on vkey version_map ver)))
       (rev (sort_key vkey (map fst version_map))) retval"

definition reorder_versions ::
  "(string \<Rightarrow> 'k::linorder version option) \<Rightarrow> sdict \<Rightarrow> sdict" where
  "reorder_versions P vdict =
     (let retval = reorder_releases vdict (reorder_version_map P vdict)
                     (reorder_protected vdict)
      in update retval (filter (\<lambda>(k, v). k \<notin> fst ` set retval) vdict))"

text \<open>
  What the ordering is meant to be, for comparison: the protected keys that are present,
  in their fixed order; the other labels that are versions, by decreasing version; the
  remaining labels in the order of the input.
\<close>

definition reorder_spec ::
  "(string \<Rightarrow> 'k::linorder version option) \<Rightarrow> sdict \<Rightarrow> sdict" where
  "reorder_spec P vdict =
     map (\<lambda>k. (k, getitem vdict k)) (filter (\<lambda>k. map_of vdict k \<noteq> None) protected)
     @ map (\<lambda>k. (k, getitem vdict k))
         (rev (sort_key (\<lambda>k. vkey (the (P k)))
                 (filter (\<lambda>k. k \<notin> set protected \<and> P k \<noteq> None) (map fst vdict))))
     @ filter (\<lambda>(k, v). k \<notin> set protected \<and> P k = None) vdict"

text \<open>No two labels outside the protected keys are the same version.\<close>

definition distinct_releases :: "(string \<Rightarrow> 'k version option) \<Rightarrow> sdict \<Rightarrow> bool" where
  "distinct_releases P vdict =
     distinct (map (\<lambda>k. vkey (the (P k)))
                 (filter (\<lambda>k. k \<notin> set protected \<and> P k \<noteq> None) (map fst vdict)))"

section \<open>Expanding a version dictionary for lookups\<close>

text \<open>\<open>s.replace(".x", "")\<close> and \<open>".x" in s\<close>.\<close>

fun remove_dotx :: "string \<Rightarrow> string" where
  "remove_dotx (c # d # s) =
     (if c = CHR ''.'' \<and> d = CHR ''x'' then remove_dotx s else c # remove_dotx (d # s))"
| "remove_dotx s = s"

fun contains_dotx :: "string \<Rightarrow> bool" where
  "contains_dotx (c # d # s) = ((c = CHR ''.'' \<and> d = CHR ''x'') \<or> contains_dotx (d # s))"
| "contains_dotx s = False"

definition string2version :: "(string \<Rightarrow> 'k version option) \<Rightarrow> string \<Rightarrow> 'k version option" where
  "string2version P v = P (remove_dotx v)"

text \<open>
  \<open>a or b\<close> on \<open>str | None\<close> operands: \<open>None\<close> and the empty string are false.
\<close>

definition py_or :: "string option \<Rightarrow> string option \<Rightarrow> string option" where
  "py_or a b = (if a = None \<or> a = Some [] then b else a)"

text \<open>
  \<open>_prepare_versions\<close>.  \<open>version_map\<close> has keys of type \<open>Version | None\<close>; the loop
  that fills \<open>retval\<close> runs over \<open>reversed(sorted_versions)\<close>.
\<close>

definition prepare_step ::
  "sdict \<Rightarrow> ('k version option \<times> string) list \<Rightarrow> 'k version \<Rightarrow> sdict \<Rightarrow> sdict" where
  "prepare_step versions version_map k retval =
     (let label = getitem_on (map_option vkey) version_map (Some k);
          retval = setitem retval label (getitem versions label)
      in if contains_dotx label
         then setitem retval (remove_dotx label) (getitem versions label)
         else if public k \<noteq> label
         then setitem retval (public k) (getitem versions label)
         else retval)"

definition prepare_version_map ::
  "(string \<Rightarrow> 'k version option) \<Rightarrow> sdict \<Rightarrow> ('k version option \<times> string) list" where
  "prepare_version_map P versions =
     fold (\<lambda>k m. setitem_on (map_option vkey) m (string2version P k) k) (map fst versions) []"

definition sorted_versions ::
  "('k::linorder version option \<times> string) list \<Rightarrow> 'k version list" where
  "sorted_versions version_map =
     sort_key vkey (concat (map (\<lambda>k. case k of Some ver \<Rightarrow> [ver] | None \<Rightarrow> [])
                              (map fst version_map)))"

definition prepare_versions ::
  "(string \<Rightarrow> 'k::linorder version option) \<Rightarrow> sdict \<Rightarrow> sdict" where
  "prepare_versions P versions =
     (if versions = [] then versions
      else
        let version_map = prepare_version_map P versions;
            sorted_versions = sorted_versions version_map
        in if sorted_versions \<noteq> [] then
             let latest = last sorted_versions;
                 retval = setitem [] ''latest''
                   (get_default versions ''latest''
                      (getitem versions (getitem_on (map_option vkey) version_map (Some latest))));
                 stable_versions = filter (\<lambda>k. \<not> (is_prerelease k \<or> is_devrelease k))
                                     sorted_versions;
                 stable = (if stable_versions \<noteq> [] then last stable_versions else latest);
                 retval = setitem retval ''stable''
                   (get_default versions ''stable''
                      (getitem versions (getitem_on (map_option vkey) version_map (Some stable))))
             in fold (prepare_step versions version_map) (rev sorted_versions) retval
           else
             let retval = setitem [] ''latest''
                   (case py_or (map_of versions ''latest'')
                           (py_or (map_of versions ''stable'')
                              (py_or (map_of versions ''master'')
                                 (py_or (map_of versions ''main'') (Some []))))
                    of Some u \<Rightarrow> u | None \<Rightarrow> [])
             in setitem retval ''stable''
                   (case py_or (map_of versions ''stable'')
                           (py_or (map_of versions ''latest'')
                              (py_or (map_of versions ''master'')
                                 (py_or (map_of versions ''main'') (Some []))))
                    of Some u \<Rightarrow> u | None \<Rightarrow> []))"

text \<open>
  The label that a round of the loop reads from \<open>version_map\<close>, and the keys it stores
  under: the label, and the label without \<open>.x\<close> or else the public string of the version.
\<close>

definition step_label :: "('k version option \<times> string) list \<Rightarrow> 'k version \<Rightarrow> string" where
  "step_label version_map k = getitem_on (map_option vkey) version_map (Some k)"

definition step_keys :: "('k version option \<times> string) list \<Rightarrow> 'k version \<Rightarrow> string list" where
  "step_keys version_map k =
     step_label version_map k #
       (if contains_dotx (step_label version_map k) then [remove_dotx (step_label version_map k)]
        else if public k \<noteq> step_label version_map k then [public k] else [])"

text \<open>
  What the functions rely on in \<open>packaging\<close>, stated for the labels of one dictionary:
  \<open>latest\<close> and \<open>stable\<close> are no versions; the public string of a version is a version;
  versions with equal keys have equal flags.
\<close>

definition final_release :: "'k version \<Rightarrow> bool" where
  "final_release v = (\<not> (is_prerelease v \<or> is_devrelease v))"

definition parsed :: "(string \<Rightarrow> 'k version option) \<Rightarrow> sdict \<Rightarrow> 'k version list" where
  "parsed P versions =
     concat (map (\<lambda>L. case string2version P L of Some v \<Rightarrow> [v] | None \<Rightarrow> []) (map fst versions))"

definition coherent :: "(string \<Rightarrow> 'k version option) \<Rightarrow> sdict \<Rightarrow> bool" where
  "coherent P versions =
     (P ''latest'' = None \<and> P ''stable'' = None
      \<and> list_all (\<lambda>v. P (public v) \<noteq> None
                      \<and> list_all (\<lambda>w. vkey w \<noteq> vkey v \<or> final_release w = final_release v)
                           (parsed P versions))
           (parsed P versions))"

text \<open>
  Dictionaries on which no two rounds of the loop store under one key: the labels that
  are versions are pairwise different versions, each the version of its own public string
  (it has no local part), and no label that contains \<open>.x\<close> is a version as it stands.
\<close>

definition plain_releases :: "(string \<Rightarrow> 'k version option) \<Rightarrow> sdict \<Rightarrow> bool" where
  "plain_releases P versions =
     (P ''latest'' = None \<and> P ''stable'' = None
      \<and> distinct (map vkey (parsed P versions))
      \<and> list_all (\<lambda>v. case P (public v) of None \<Rightarrow> False | Some w \<Rightarrow> vkey w = vkey v)
           (parsed P versions)
      \<and> list_all (\<lambda>L. \<not> (contains_dotx L \<and> string2version P L \<noteq> None \<and> P L \<noteq> None))
           (map fst versions))"

text \<open>
  The fallback of the aliases in words: the first of the given keys that is present with
  a URL that is not empty, or the empty string.
\<close>

fun first_url :: "sdict \<Rightarrow> string list \<Rightarrow> string" where
  "first_url versions [] = []"
| "first_url versions (k # ks) =
     (case map_of versions k of
        Some u \<Rightarrow> if u \<noteq> [] then u else first_url versions ks
      | None \<Rightarrow> first_url versions ks)"

section \<open>A fragment of PEP 440 for concrete runs\<close>

text \<open>
  To run the functions on concrete dictionaries the parameter \<open>P\<close> is instantiated with
  \<open>release_version\<close>: the behaviour of \<open>packaging.version.Version\<close> on strings of the
  form \<open>[v]N(.N)*[rcN]\<close> (an optional \<open>v\<close>, a dotted release, an optional release
  candidate), every other string being refused.  The comparison key is the release
  without its trailing zeros, then \<open>(0, n)\<close> for the release candidate \<open>n\<close> and \<open>(1, 0)\<close>
  for a final release, compared lexicographically; \<open>public\<close> is the normalised string.
\<close>

definition is_digit :: "char \<Rightarrow> bool" where
  "is_digit c = (c \<in> set ''0123456789'')"

definition digit_value :: "char \<Rightarrow> nat" where
  "digit_value c = of_char c - 48"

definition number :: "string \<Rightarrow> nat option" where
  "number s = (if s \<noteq> [] \<and> list_all is_digit s
               then Some (fold (\<lambda>c n. 10 * n + digit_value c) s 0) else None)"

text \<open>The decimal string of a number read by \<open>number\<close>: leading zeros go.\<close>

definition canonical_number :: "string \<Rightarrow> string" where
  "canonical_number s = (case dropWhile (\<lambda>c. c = CHR ''0'') s of [] \<Rightarrow> ''0'' | r \<Rightarrow> r)"

fun split_dots :: "string \<Rightarrow> string list" where
  "split_dots [] = [[]]"
| "split_dots (c # s) =
     (if c = CHR ''.'' then [] # split_dots s
      else (case split_dots s of w # ws \<Rightarrow> (c # w) # ws | [] \<Rightarrow> [[c]]))"

fun join_dots :: "string list \<Rightarrow> string" where
  "join_dots [] = []"
| "join_dots [w] = w"
| "join_dots (w # ws) = w @ ''.'' @ join_dots ws"

definition strip_zeros :: "nat list \<Rightarrow> nat list" where
  "strip_zeros ns = rev (dropWhile (\<lambda>n. n = 0) (rev ns))"

definition release_version :: "string \<Rightarrow> (nat list \<times> nat \<times> nat) version option" where
  "release_version s =
     (let s = (case s of c # r \<Rightarrow> if c = CHR ''v'' then r else s | [] \<Rightarrow> s);
          body = takeWhile (\<lambda>c. is_digit c \<or> c = CHR ''.'') s;
          tail = dropWhile (\<lambda>c. is_digit c \<or> c = CHR ''.'') s;
          parts = split_dots body
      in if list_all (\<lambda>w. number w \<noteq> None) parts then
           (if tail = [] then
              Some (Version (strip_zeros (map (\<lambda>w. the (number w)) parts), 1, 0)
                      (join_dots (map canonical_number parts)) False False)
            else if take 2 tail = ''rc'' \<and> number (drop 2 tail) \<noteq> None then
              Some (Version (strip_zeros (map (\<lambda>w. the (number w)) parts), 0,
                             the (number (drop 2 tail)))
                      (join_dots (map canonical_number parts) @ ''rc''
                         @ canonical_number (drop 2 tail)) True False)
            else None)
         else None)"

section \<open>The catalog\<close>

text \<open>
  \<open>Catalog._data\<close>: package name to package entry, the entry a dictionary whose keys
  \<open>"versions"\<close> and \<open>"sources"\<close> hold dictionaries from strings to strings.  A catalog
  read from a file may lack either key, which is why \<open>_ensure_defaults\<close> exists.
\<close>

type_synonym package = "(string \<times> sdict) list"
type_synonym catalog = "(string \<times> package) list"

datatype error = KeyError string | RuntimeError string

text \<open>
  The logger.  A record is its level and the message with the values it interpolates
  (\<open>rewrap\<close> only changes the white space of the text).
\<close>

datatype level = DEBUG | INFO | WARNING | ERROR

datatype message =
    Checking string string string
  | Found_urls string string nat
  | Ignoring_repeated string
  | Ignoring_reset string string string
  | Version_not_in_user_catalog string "string option"
  | Version_not_in_builtin_catalog string "string option"
  | Not_in_environment string
  | Not_at_readthedocs string
  | Not_at_pypi string
  | Cannot_find string

type_synonym log = "(level \<times> message) list"

text \<open>\<open>d.setdefault(k, v)\<close>, as a statement.\<close>

definition setdefault :: "('a \<times> 'b) list \<Rightarrow> 'a \<Rightarrow> 'b \<Rightarrow> ('a \<times> 'b) list" where
  "setdefault d k v = (if map_of d k = None then setitem d k v else d)"

text \<open>
  \<open>d[k] = f(d[k])\<close> and in-place changes of \<open>d[k]\<close>, at places where \<open>k\<close> is a key of
  \<open>d\<close> (after \<open>_ensure_defaults\<close>); a dictionary without the key is returned as it is.
\<close>

fun modify :: "'a \<Rightarrow> ('b \<Rightarrow> 'b) \<Rightarrow> ('a \<times> 'b) list \<Rightarrow> ('a \<times> 'b) list" where
  "modify k f [] = []"
| "modify k f ((k', v) # d) = (if k' = k then (k', f v) # d else (k', v) # modify k f d)"

text \<open>
  \<open>Catalog._ensure_defaults\<close>.  A package that is not in the catalog gets the entry
  with both keys, on which the two \<open>setdefault\<close> calls that follow change nothing.
\<close>

definition ensure_defaults :: "catalog \<Rightarrow> string \<Rightarrow> catalog" where
  "ensure_defaults c pkg =
     modify pkg (\<lambda>info. setdefault (setdefault info ''versions'' []) ''sources'' [])
       (setdefault c pkg [(''versions'', []), (''sources'', [])])"

text \<open>
  The three methods \<open>update_versions_from_environment\<close>, \<open>update_versions_from_rtd\<close>
  and \<open>update_versions_from_pypi\<close> have one body, up to the name of the source and the
  function that fetches.  The fetchers (\<open>docurls_from_environment\<close>, \<open>docurls_from_rtd\<close>,
  \<open>docurls_from_pypi\<close>) read the network and are parameters.  The state is the catalog
  and the log; the result is the returned flag and the new state.
\<close>

text \<open>\<open>name or pkg\<close>, for \<open>name\<close> a string or \<open>None\<close>.\<close>

definition name_or :: "string option \<Rightarrow> string \<Rightarrow> string" where
  "name_or name pkg = (case name of None \<Rightarrow> pkg | Some n \<Rightarrow> if n = [] then pkg else n)"

definition update_versions_from ::
  "(string \<Rightarrow> 'k::linorder version option) \<Rightarrow> string \<Rightarrow> (string \<Rightarrow> sdict) \<Rightarrow>
   catalog \<times> log \<Rightarrow> string \<Rightarrow> string option \<Rightarrow> bool \<times> catalog \<times> log" where
  "update_versions_from P source fetch st pkg name =
     (let c = ensure_defaults (fst st) pkg;
          name = name_or name pkg;
          lg = snd st @ [(DEBUG, Checking source pkg name)];
          versions = fetch name;
          lg = lg @ [(DEBUG, Found_urls source pkg (length versions))];
          c = (if versions \<noteq> [] then
                 modify pkg (modify ''sources'' (\<lambda>s. setitem s source name))
                   (modify pkg (modify ''versions'' (reorder_versions P))
                      (modify pkg (modify ''versions'' (\<lambda>vs. update vs versions)) c))
               else c)
      in (0 < length versions, c, lg))"

record 'k fetchers =
  pep440 :: "string \<Rightarrow> 'k version option"
  docurls_from_environment :: "string \<Rightarrow> sdict"
  docurls_from_rtd :: "string \<Rightarrow> sdict"
  docurls_from_pypi :: "string \<Rightarrow> int \<Rightarrow> sdict"

definition update_versions_from_environment ::
  "('k::linorder) fetchers \<Rightarrow> catalog \<times> log \<Rightarrow> string \<Rightarrow> string option \<Rightarrow> bool \<times> catalog \<times> log" where
  "update_versions_from_environment F st pkg name =
     update_versions_from (pep440 F) ''environment'' (docurls_from_environment F) st pkg name"

definition update_versions_from_rtd ::
  "('k::linorder) fetchers \<Rightarrow> catalog \<times> log \<Rightarrow> string \<Rightarrow> string option \<Rightarrow> bool \<times> catalog \<times> log" where
  "update_versions_from_rtd F st pkg name =
     update_versions_from (pep440 F) ''readthedocs'' (docurls_from_rtd F) st pkg name"

definition update_versions_from_pypi ::
  "('k::linorder) fetchers \<Rightarrow> catalog \<times> log \<Rightarrow> string \<Rightarrow> string option \<Rightarrow> int \<Rightarrow>
   bool \<times> catalog \<times> log" where
  "update_versions_from_pypi F st pkg name max_entries =
     update_versions_from (pep440 F) ''pypi'' (\<lambda>n. docurls_from_pypi F n max_entries) st pkg name"

text \<open>
  \<open>Catalog.update_versions\<close>.  \<open>names\<close> maps a source to a dictionary from package to
  the name to use there, or to \<open>None\<close>: \<open>names.get(action, {}).get(pkg, pkg)\<close>.  The inner
  loop over \<open>order\<close> stops at the first hit unless \<open>keep_going\<close>; \<open>update_action\<close> is
  one round of it, with the flag \<open>ok\<close> (false when the source is skipped).
\<close>

type_synonym names = "(string \<times> (string \<times> string option) list) list"

definition lookup_name :: "names \<Rightarrow> string \<Rightarrow> string \<Rightarrow> string option" where
  "lookup_name names action pkg = get_default (get_default names action []) pkg (Some pkg)"

definition update_action ::
  "('k::linorder) fetchers \<Rightarrow> names \<Rightarrow> int \<Rightarrow> string \<Rightarrow> string \<Rightarrow>
   catalog \<times> log \<Rightarrow> error + bool \<times> catalog \<times> log" where
  "update_action F names pypi_max_entries pkg action st =
     (if action = ''environment'' then
        (case lookup_name names action pkg of
           None \<Rightarrow> Inr (False, st)
         | Some name \<Rightarrow> Inr (update_versions_from_environment F st pkg (Some name)))
      else if action = ''readthedocs'' then
        (case lookup_name names action pkg of
           None \<Rightarrow> Inr (False, st)
         | Some name \<Rightarrow> Inr (update_versions_from_rtd F st pkg (Some name)))
      else if action = ''pypi'' then
        (case lookup_name names action pkg of
           None \<Rightarrow> Inr (False, st)
         | Some name \<Rightarrow> Inr (update_versions_from_pypi F st pkg (Some name) pypi_max_entries))
      else Inl (RuntimeError action))"

fun update_actions ::
  "('k::linorder) fetchers \<Rightarrow> names \<Rightarrow> int \<Rightarrow> bool \<Rightarrow> string \<Rightarrow> string list \<Rightarrow>
   catalog \<times> log \<Rightarrow> error + catalog \<times> log" where
  "update_actions F names pypi_max_entries keep_going pkg [] st = Inr st"
| "update_actions F names pypi_max_entries keep_going pkg (action # order) st =
     (case update_action F names pypi_max_entries pkg action st of
        Inl e \<Rightarrow> Inl e
      | Inr (ok, st') \<Rightarrow>
          if ok \<and> \<not> keep_going then Inr st'
          else update_actions F names pypi_max_entries keep_going pkg order st')"

fun update_versions ::
  "('k::linorder) fetchers \<Rightarrow> string list \<Rightarrow> string list \<Rightarrow> names \<Rightarrow> int \<Rightarrow> bool \<Rightarrow>
   catalog \<times> log \<Rightarrow> error + catalog \<times> log" where
  "update_versions F [] order names pypi_max_entries keep_going st = Inr st"
| "update_versions F (pkg # pkgs) order names pypi_max_entries keep_going st =
     (case update_actions F names pypi_max_entries keep_going pkg order st of
        Inl e \<Rightarrow> Inl e
      | Inr st' \<Rightarrow> update_versions F pkgs order names pypi_max_entries keep_going st')"

text \<open>
  \<open>Catalog.self_update\<close>: \<open>names[src][pkg] = info["sources"].get(src)\<close> for every package
  and source, then \<open>update_versions\<close> with the defaults \<open>order = ["environment",
  "readthedocs", "pypi"]\<close>, \<open>pypi_max_entries = 0\<close> and \<open>keep_going = False\<close>.
\<close>

fun self_update_names :: "catalog \<Rightarrow> names \<Rightarrow> error + names" where
  "self_update_names [] names = Inr names"
| "self_update_names ((pkg, info) # rest) names =
     (case map_of info ''sources'' of
        None \<Rightarrow> Inl (KeyError ''sources'')
      | Some sources \<Rightarrow>
          self_update_names rest
            (fold (\<lambda>src ns. modify src (\<lambda>d. setitem d pkg (map_of sources src)) ns)
               [''environment'', ''readthedocs'', ''pypi''] names))"

definition self_update ::
  "('k::linorder) fetchers \<Rightarrow> catalog \<times> log \<Rightarrow> error + catalog \<times> log" where
  "self_update F st =
     (case self_update_names (fst st)
             [(''environment'', []), (''readthedocs'', []), (''pypi'', [])] of
        Inl e \<Rightarrow> Inl e
      | Inr names \<Rightarrow>
          update_versions F (map fst (fst st)) [''environment'', ''readthedocs'', ''pypi'']
            names 0 False st)"

text \<open>
  The dictionary \<open>names\<close> that \<open>self_update\<close> builds for a catalog whose entries all
  have \<open>sources\<close>, and what \<open>self_update\<close> does, in words: for every package, in the order of the catalog, and
  for the sources environment, readthedocs, pypi in this order, a source whose name is
  recorded in the package's \<open>sources\<close> (as the catalog was at the start) is looked up
  under that name; a source without a recorded name is skipped; the first source that
  finds versions ends the round of the package.
\<close>

definition recorded_names :: "catalog \<Rightarrow> names" where
  "recorded_names c =
     [(''environment'', update [] (map (\<lambda>(pkg, info).
          (pkg, map_of (get_default info ''sources'' []) ''environment'')) c)),
      (''readthedocs'', update [] (map (\<lambda>(pkg, info).
          (pkg, map_of (get_default info ''sources'' []) ''readthedocs'')) c)),
      (''pypi'', update [] (map (\<lambda>(pkg, info).
          (pkg, map_of (get_default info ''sources'' []) ''pypi'')) c))]"

definition update_from_source ::
  "('k::linorder) fetchers \<Rightarrow> string \<Rightarrow> catalog \<times> log \<Rightarrow> string \<Rightarrow> string option \<Rightarrow>
   bool \<times> catalog \<times> log" where
  "update_from_source F source st pkg name =
     (if source = ''environment'' then update_versions_from_environment F st pkg name
      else if source = ''readthedocs'' then update_versions_from_rtd F st pkg name
      else update_versions_from_pypi F st pkg name 0)"

fun refresh_known ::
  "('k::linorder) fetchers \<Rightarrow> string \<Rightarrow> sdict \<Rightarrow> string list \<Rightarrow> catalog \<times> log \<Rightarrow> catalog \<times> log" where
  "refresh_known F pkg recorded [] st = st"
| "refresh_known F pkg recorded (source # order) st =
     (case map_of recorded source of
        None \<Rightarrow> refresh_known F pkg recorded order st
      | Some name \<Rightarrow>
          (case update_from_source F source st pkg (Some name) of
             (ok, st') \<Rightarrow> if ok then st' else refresh_known F pkg recorded order st'))"

definition refresh_all :: "('k::linorder) fetchers \<Rightarrow> catalog \<Rightarrow> catalog \<times> log \<Rightarrow> catalog \<times> log" where
  "refresh_all F c st =
     fold (\<lambda>(pkg, info) st. refresh_known F pkg (get_default info ''sources'' [])
                               [''environment'', ''readthedocs'', ''pypi''] st) c st"

text \<open>The dictionary under a key of a package entry, and the version labels of a package.\<close>

definition entry_of :: "catalog \<Rightarrow> string \<Rightarrow> string \<Rightarrow> sdict option" where
  "entry_of c pkg key = (case map_of c pkg of None \<Rightarrow> None | Some info \<Rightarrow> map_of info key)"

definition labels :: "catalog \<Rightarrow> string \<Rightarrow> string set" where
  "labels c pkg = (case entry_of c pkg ''versions'' of None \<Rightarrow> {} | Some vs \<Rightarrow> set (map fst vs))"

section \<open>The lookup view\<close>

record lookup =
  version_map :: "(string \<times> sdict) list"
  package_map :: "(string \<times> string) list"

text \<open>
  \<open>LookupCatalog.reset\<close>, on the catalog the view was built over.  Reading
  \<open>self._catalog[pkg]["versions"]\<close> or \<open>["sources"]\<close> of an entry without the key raises.
\<close>

fun reset_loop ::
  "(string \<Rightarrow> 'k::linorder version option) \<Rightarrow> catalog \<Rightarrow> lookup \<Rightarrow> error + lookup" where
  "reset_loop P [] lk = Inr lk"
| "reset_loop P ((pkg, info) # rest) lk =
     (case map_of info ''versions'' of
        None \<Rightarrow> Inl (KeyError ''versions'')
      | Some versions \<Rightarrow>
          (case map_of info ''sources'' of
             None \<Rightarrow> Inl (KeyError ''sources'')
           | Some sources \<Rightarrow>
               reset_loop P rest
                 \<lparr>version_map = setitem (version_map lk) pkg (prepare_versions P versions),
                  package_map = update (setitem (package_map lk) pkg pkg)
                                  (fold (\<lambda>v m. setitem m v pkg) (map snd sources) [])\<rparr>))"

definition reset :: "(string \<Rightarrow> 'k::linorder version option) \<Rightarrow> catalog \<Rightarrow> error + lookup" where
  "reset P c = reset_loop P c \<lparr>version_map = [], package_map = []\<rparr>"

text \<open>
  \<open>LookupCatalog.get\<close>.  The result is a URL or the default.  \<open>version\<close> may be \<open>None\<close>,
  which is no key of a version dictionary.  The second test indexes \<open>_version_map\<close> with
  the name as given, the \<open>return\<close> with the canonical name.
\<close>

datatype 'd found = Url string | Default 'd

definition get :: "lookup \<Rightarrow> string \<Rightarrow> string option \<Rightarrow> 'd \<Rightarrow> error + 'd found" where
  "get lk pkg version dflt =
     (case map_of (package_map lk) pkg of
        None \<Rightarrow> Inr (Default dflt)
      | Some canonical \<Rightarrow>
          (case map_of (version_map lk) pkg of
             None \<Rightarrow> Inl (KeyError pkg)
           | Some vs \<Rightarrow>
               (case version of
                  None \<Rightarrow> Inr (Default dflt)
                | Some v \<Rightarrow>
                    if map_of vs v = None then Inr (Default dflt)
                    else (case map_of (version_map lk) canonical of
                            None \<Rightarrow> Inl (KeyError canonical)
                          | Some vs' \<Rightarrow>
                              (case map_of vs' v of
                                 None \<Rightarrow> Inl (KeyError v)
                               | Some u \<Rightarrow> Inr (Url u))))))"

section \<open>The resolution driver\<close>

type_synonym imap = "(string \<times> string \<times> string option) list"

definition endswith_slash :: "string \<Rightarrow> bool" where
  "endswith_slash s = (s \<noteq> [] \<and> last s = CHR ''/'')"

text \<open>\<open>addr\<close>, a slash unless it ends in one, and the inventory name or \<open>objects.inv\<close>.\<close>

definition inventory_url :: "string \<Rightarrow> string option \<Rightarrow> string" where
  "inventory_url addr objects_inv =
     addr @ (if \<not> endswith_slash addr then ''/'' else [])
          @ (case objects_inv of
               None \<Rightarrow> ''objects.inv''
             | Some i \<Rightarrow> if i = [] then ''objects.inv'' else i)"

text \<open>\<open>_add_index\<close>: the new mapping and what it logs.\<close>

definition add_index :: "imap \<Rightarrow> string \<Rightarrow> string \<Rightarrow> string option \<Rightarrow> imap \<times> log" where
  "add_index mapping name addr objects_inv =
     (case map_of mapping name of
        None \<Rightarrow> (setitem mapping name (addr, objects_inv), [])
      | Some (a, i) \<Rightarrow>
          if a = addr \<and> i = objects_inv then (mapping, [(INFO, Ignoring_repeated name)])
          else (mapping,
                [(ERROR, Ignoring_reset name (inventory_url a i)
                           (inventory_url addr objects_inv))]))"

text \<open>
  The loop of \<open>populate_intersphinx_mapping\<close> over \<open>auto_intersphinx_packages\<close>.  An
  entry is a package with a version or \<open>None\<close> (a bare name stands for the version
  \<open>"stable"\<close>).  The state is the intersphinx mapping, the user catalog, the view over it
  and the log; the built-in catalog and its view do not change.
\<close>

record driver =
  mapping :: imap
  user_catalog :: catalog
  user_lookup :: lookup
  messages :: log

definition registered :: "driver \<Rightarrow> string \<Rightarrow> string \<Rightarrow> driver" where
  "registered s p addr =
     (case add_index (mapping s) p addr None of
        (m, lg) \<Rightarrow> s\<lparr>mapping := m, messages := messages s @ lg\<rparr>)"

text \<open>
  One of the three stages that fetch: update the user catalog, reset the view, look up
  again; \<open>Inr (Inl s)\<close> is a hit (\<open>continue\<close>), \<open>Inr (Inr s)\<close> a miss.
\<close>

definition fetch_stage ::
  "(string \<Rightarrow> 'k::linorder version option) \<Rightarrow>
   (catalog \<times> log \<Rightarrow> bool \<times> catalog \<times> log) \<Rightarrow> message \<Rightarrow>
   string \<Rightarrow> string option \<Rightarrow> driver \<Rightarrow> error + (driver + driver)" where
  "fetch_stage P upd miss p v s =
     (case upd (user_catalog s, messages s) of
        (ok, c, lg) \<Rightarrow>
          (case reset P c of
             Inl e \<Rightarrow> Inl e
           | Inr lk \<Rightarrow>
               (case get lk p v () of
                  Inl e \<Rightarrow> Inl e
                | Inr (Url addr) \<Rightarrow>
                    Inr (Inl (registered
                      (s\<lparr>user_catalog := c, user_lookup := lk, messages := lg\<rparr>) p addr))
                | Inr (Default u) \<Rightarrow>
                    Inr (Inr (s\<lparr>user_catalog := c, user_lookup := lk,
                                 messages := lg @ [(INFO, miss)]\<rparr>)))))"

text \<open>The stages after the two catalogs, and the error when all of them miss.\<close>

definition resolve_online ::
  "('k::linorder) fetchers \<Rightarrow> string \<Rightarrow> string option \<Rightarrow> driver \<Rightarrow> error + driver" where
  "resolve_online F p v s =
     (case fetch_stage (pep440 F) (\<lambda>st. update_versions_from_environment F st p None)
             (Not_in_environment p) p v s of
        Inl e \<Rightarrow> Inl e
      | Inr (Inl s1) \<Rightarrow> Inr s1
      | Inr (Inr s1) \<Rightarrow>
          (case fetch_stage (pep440 F) (\<lambda>st. update_versions_from_rtd F st p None)
                  (Not_at_readthedocs p) p v s1 of
             Inl e \<Rightarrow> Inl e
           | Inr (Inl s2) \<Rightarrow> Inr s2
           | Inr (Inr s2) \<Rightarrow>
               (case fetch_stage (pep440 F) (\<lambda>st. update_versions_from_pypi F st p None 0)
                       (Not_at_pypi p) p v s2 of
                  Inl e \<Rightarrow> Inl e
                | Inr (Inl s3) \<Rightarrow> Inr s3
                | Inr (Inr s3) \<Rightarrow>
                    Inr (s3\<lparr>messages := messages s3
                      @ [(ERROR, Cannot_find
                           (case v of Some w \<Rightarrow> p @ ''@'' @ w | None \<Rightarrow> p))]\<rparr>))))"

definition warn_if :: "bool \<Rightarrow> level \<times> message \<Rightarrow> driver \<Rightarrow> driver" where
  "warn_if b m s = (if b then s\<lparr>messages := messages s @ [m]\<rparr> else s)"

definition resolve ::
  "('k::linorder) fetchers \<Rightarrow> catalog \<Rightarrow> lookup \<Rightarrow> driver \<Rightarrow> string \<times> string option \<Rightarrow>
   error + driver" where
  "resolve F builtin_catalog builtin_lookup s k =
     (case k of (p, v) \<Rightarrow>
        (case get (user_lookup s) p v () of
           Inl e \<Rightarrow> Inl e
         | Inr (Url addr) \<Rightarrow> Inr (registered s p addr)
         | Inr (Default u) \<Rightarrow>
             (let s1 = warn_if (map_of (user_catalog s) p \<noteq> None)
                         (WARNING, Version_not_in_user_catalog p v) s
              in (case get builtin_lookup p v () of
                    Inl e \<Rightarrow> Inl e
                  | Inr (Url addr) \<Rightarrow> Inr (registered s1 p addr)
                  | Inr (Default u') \<Rightarrow>
                      resolve_online F p v
                        (warn_if (map_of builtin_catalog p \<noteq> None)
                           (INFO, Version_not_in_builtin_catalog p v) s1)))))"

fun populate ::
  "('k::linorder) fetchers \<Rightarrow> catalog \<Rightarrow> lookup \<Rightarrow> (string \<times> string option) list \<Rightarrow> driver \<Rightarrow>
   error + driver" where
  "populate F builtin_catalog builtin_lookup [] s = Inr s"
| "populate F builtin_catalog builtin_lookup (k # ks) s =
     (case resolve F builtin_catalog builtin_lookup s k of
        Inl e \<Rightarrow> Inl e
      | Inr s' \<Rightarrow> populate F builtin_catalog builtin_lookup ks s')"

section \<open>Saving and loading a catalog\<close>

text \<open>
  \<open>Catalog.dumps\<close> is \<open>json.dumps(self._data, indent=2)\<close> and \<open>Catalog.loads\<close> stores
  \<open>json.loads(contents)\<close>.  Both functions belong to Python's standard library; they are
  written out here, after \<open>json.encoder\<close> and \<open>json.decoder\<close>, for the values a catalog
  is made of: strings, and objects whose members are such values.  Arrays, numbers and
  the three literals never occur in what \<open>dumps\<close> writes; the reader answers
  \<open>Unsupported\<close> where one of them starts.  A character is one of the 256 of
  \<^typ>\<open>char\<close>, as in every string of this development, so that a four-digit escape above
  \<open>00ff\<close> is \<open>Unsupported\<close> as well.
\<close>

datatype json = JString string | JObject "(string \<times> json) list"

datatype json_error = JSONDecodeError | Unsupported | Exhausted | NotACatalog

subsection \<open>Writing\<close>

text \<open>
  \<open>py_encode_basestring_ascii\<close>: the quote and the backslash, and every character outside
  the range from the space to the tilde, are replaced; the seven entries of \<open>ESCAPE_DCT\<close>
  come first, every other character is written as a backslash, the letter \<open>u\<close> and its
  code in four lower-case hexadecimal digits.
\<close>

definition hex_digit :: "nat \<Rightarrow> char" where
  "hex_digit d = ''0123456789abcdef'' ! d"

definition escape_char :: "char \<Rightarrow> string" where
  "escape_char c =
     (if c = CHR 0x22 then [CHR 0x5C, CHR 0x22]
      else if c = CHR 0x5C then [CHR 0x5C, CHR 0x5C]
      else if c = CHR 0x0A then [CHR 0x5C, CHR ''n'']
      else if c = CHR 0x0D then [CHR 0x5C, CHR ''r'']
      else if c = CHR 0x09 then [CHR 0x5C, CHR ''t'']
      else if c = CHR 0x08 then [CHR 0x5C, CHR ''b'']
      else if c = CHR 0x0C then [CHR 0x5C, CHR ''f'']
      else if (of_char c :: nat) < 32 \<or> 126 < (of_char c :: nat) then
        [CHR 0x5C, CHR ''u'', CHR ''0'', CHR ''0'',
         hex_digit (of_char c div 16), hex_digit (of_char c mod 16)]
      else [c])"

definition encode_string :: "string \<Rightarrow> string" where
  "encode_string s = CHR 0x22 # concat (map escape_char s) @ [CHR 0x22]"

text \<open>
  \<open>_iterencode_dict\<close> with an indent of two spaces: an empty dictionary is \<open>{}\<close>; any
  other one puts each member on a line of its own, one level deeper, the key and the
  value separated by a colon and a space, the members by a comma, and closes the brace
  on a line at the level it was opened.
\<close>

definition newline_indent :: "nat \<Rightarrow> string" where
  "newline_indent level = CHR 0x0A # replicate (2 * level) CHR '' ''"

fun dumps_value :: "nat \<Rightarrow> json \<Rightarrow> string"
  and dumps_members :: "nat \<Rightarrow> (string \<times> json) list \<Rightarrow> string" where
  "dumps_value level (JString s) = encode_string s"
| "dumps_value level (JObject ms) =
     (if ms = [] then ''{}''
      else ''{'' @ newline_indent (Suc level) @ dumps_members (Suc level) ms
           @ newline_indent level @ ''}'')"
| "dumps_members level [] = []"
| "dumps_members level ((k, v) # ms) =
     encode_string k @ '': '' @ dumps_value level v
     @ (if ms = [] then [] else '','' @ newline_indent level @ dumps_members level ms)"

definition json_dumps :: "json \<Rightarrow> string" where
  "json_dumps v = dumps_value 0 v"

subsection \<open>Reading\<close>

text \<open>
  \<open>scanstring\<close> in strict mode, called behind the opening quote: it returns the decoded
  string and what follows the closing quote.  A control character, an unknown escape, a
  malformed four-digit escape and the end of the text inside the string are errors.
\<close>

definition hex_value :: "char \<Rightarrow> nat option" where
  "hex_value c =
     (if c \<in> set ''0123456789'' then Some (of_char c - 48)
      else if c \<in> set ''abcdef'' then Some (of_char c - 87)
      else if c \<in> set ''ABCDEF'' then Some (of_char c - 55)
      else None)"

definition decode_uXXXX :: "string \<Rightarrow> nat option" where
  "decode_uXXXX s =
     (case map hex_value (take 4 s) of
        [Some a, Some b, Some c, Some d] \<Rightarrow> Some (((a * 16 + b) * 16 + c) * 16 + d)
      | _ \<Rightarrow> None)"

definition unescape :: "char \<Rightarrow> char option" where
  "unescape e =
     (if e = CHR 0x22 then Some (CHR 0x22)
      else if e = CHR 0x5C then Some (CHR 0x5C)
      else if e = CHR ''/'' then Some CHR ''/''
      else if e = CHR ''b'' then Some (CHR 0x08)
      else if e = CHR ''f'' then Some (CHR 0x0C)
      else if e = CHR ''n'' then Some (CHR 0x0A)
      else if e = CHR ''r'' then Some (CHR 0x0D)
      else if e = CHR ''t'' then Some (CHR 0x09)
      else None)"

function scanstring :: "string \<Rightarrow> json_error + string \<times> string" where
  "scanstring [] = Inl JSONDecodeError"
| "scanstring (c # s) =
     (if c = CHR 0x22 then Inr ([], s)
      else if c = CHR 0x5C then
        (case s of
           [] \<Rightarrow> Inl JSONDecodeError
         | e # s' \<Rightarrow>
             if e = CHR ''u'' then
               (case decode_uXXXX s' of
                  None \<Rightarrow> Inl JSONDecodeError
                | Some n \<Rightarrow>
                    if n < 256 then
                      (case scanstring (drop 4 s') of
                         Inl err \<Rightarrow> Inl err
                       | Inr (t, r) \<Rightarrow> Inr (char_of n # t, r))
                    else Inl Unsupported)
             else
               (case unescape e of
                  None \<Rightarrow> Inl JSONDecodeError
                | Some ch \<Rightarrow>
                    (case scanstring s' of
                       Inl err \<Rightarrow> Inl err
                     | Inr (t, r) \<Rightarrow> Inr (ch # t, r))))
      else if (of_char c :: nat) < 32 then Inl JSONDecodeError
      else (case scanstring s of
              Inl err \<Rightarrow> Inl err
            | Inr (t, r) \<Rightarrow> Inr (c # t, r)))"
  by pat_completeness auto
termination
  by (relation "measure length") auto

text \<open>The white space that the decoder skips between tokens.\<close>

definition skip_ws :: "string \<Rightarrow> string" where
  "skip_ws s = dropWhile (\<lambda>c. c = CHR '' '' \<or> c = CHR 0x09 \<or> c = CHR 0x0A \<or> c = CHR 0x0D) s"

text \<open>
  \<open>scan_once\<close> reads the value that starts at the head of the text, and \<open>scan_members\<close>
  is the loop of \<open>JSONObject\<close>, entered behind the opening quote of a key with the pairs
  read so far.  The pairs become a dictionary at the closing brace, so that of two
  members with one key the second value stays, at the place of the first.  Each call
  is made on a shorter text; the first argument counts the calls that may still be made,
  and \<open>Exhausted\<close> is the answer when none is left.
\<close>

fun scan_once :: "nat \<Rightarrow> string \<Rightarrow> json_error + json \<times> string"
  and scan_members ::
    "nat \<Rightarrow> string \<Rightarrow> (string \<times> json) list \<Rightarrow> json_error + json \<times> string" where
  "scan_once 0 s = Inl Exhausted"
| "scan_once (Suc n) [] = Inl JSONDecodeError"
| "scan_once (Suc n) (c # s) =
     (if c = CHR 0x22 then
        (case scanstring s of Inl err \<Rightarrow> Inl err | Inr (t, r) \<Rightarrow> Inr (JString t, r))
      else if c = CHR ''{'' then
        (case skip_ws s of
           [] \<Rightarrow> Inl JSONDecodeError
         | d # r \<Rightarrow>
             if d = CHR ''}'' then Inr (JObject [], r)
             else if d = CHR 0x22 then scan_members n r []
             else Inl JSONDecodeError)
      else if c \<in> set ''[-0123456789tfnNI'' then Inl Unsupported
      else Inl JSONDecodeError)"
| "scan_members 0 s pairs = Inl Exhausted"
| "scan_members (Suc n) s pairs =
     (case scanstring s of
        Inl err \<Rightarrow> Inl err
      | Inr (key, r) \<Rightarrow>
          (case skip_ws r of
             [] \<Rightarrow> Inl JSONDecodeError
           | colon # r1 \<Rightarrow>
               if colon \<noteq> CHR '':'' then Inl JSONDecodeError
               else
                 (case scan_once n (skip_ws r1) of
                    Inl err \<Rightarrow> Inl err
                  | Inr (v, r2) \<Rightarrow>
                      (case skip_ws r2 of
                         [] \<Rightarrow> Inl JSONDecodeError
                       | d # r3 \<Rightarrow>
                           if d = CHR ''}'' then Inr (JObject (update [] (pairs @ [(key, v)])), r3)
                           else if d = CHR '','' then
                             (case skip_ws r3 of
                                [] \<Rightarrow> Inl JSONDecodeError
                              | q # r4 \<Rightarrow>
                                  if q = CHR 0x22 then scan_members n r4 (pairs @ [(key, v)])
                                  else Inl JSONDecodeError)
                           else Inl JSONDecodeError))))"

text \<open>
  \<open>JSONDecoder.decode\<close>: white space, one value, white space, and nothing more.  The
  count is one more than the length of the text, which is never used up
  (\<open>json_loads_not_exhausted\<close> below).
\<close>

definition json_loads :: "string \<Rightarrow> json_error + json" where
  "json_loads s =
     (case scan_once (Suc (length s)) (skip_ws s) of
        Inl err \<Rightarrow> Inl err
      | Inr (v, r) \<Rightarrow> if skip_ws r = [] then Inr v else Inl JSONDecodeError)"

subsection \<open>The catalog as a JSON value\<close>

text \<open>
  Python keeps the value that \<open>json.loads\<close> built as it is; here a catalog has a type of
  its own, and a value that is not a dictionary of dictionaries of dictionaries of
  strings is reported as \<open>NotACatalog\<close>.
\<close>

definition json_of :: "('a \<Rightarrow> json) \<Rightarrow> (string \<times> 'a) list \<Rightarrow> json" where
  "json_of f d = JObject (map (\<lambda>(k, a). (k, f a)) d)"

definition catalog_json :: "catalog \<Rightarrow> json" where
  "catalog_json c = json_of (json_of (json_of JString)) c"

fun members_of :: "json \<Rightarrow> (string \<times> json) list option" where
  "members_of (JObject ms) = Some ms"
| "members_of (JString s) = None"

fun string_of :: "json \<Rightarrow> string option" where
  "string_of (JString s) = Some s"
| "string_of (JObject ms) = None"

fun typed :: "(json \<Rightarrow> 'a option) \<Rightarrow> (string \<times> json) list \<Rightarrow> (string \<times> 'a) list option" where
  "typed f [] = Some []"
| "typed f ((k, v) # ms) =
     (case f v of
        None \<Rightarrow> None
      | Some a \<Rightarrow> (case typed f ms of None \<Rightarrow> None | Some r \<Rightarrow> Some ((k, a) # r)))"

definition dict_of :: "(json \<Rightarrow> 'a option) \<Rightarrow> json \<Rightarrow> (string \<times> 'a) list option" where
  "dict_of f v = (case members_of v of None \<Rightarrow> None | Some ms \<Rightarrow> typed f ms)"

definition json_catalog :: "json \<Rightarrow> catalog option" where
  "json_catalog v = dict_of (dict_of (dict_of string_of)) v"

text \<open>\<open>Catalog.dumps\<close> and \<open>Catalog.loads\<close>; the latter returns the new \<open>_data\<close>.\<close>

definition dumps :: "catalog \<Rightarrow> string" where
  "dumps c = json_dumps (catalog_json c)"

definition loads :: "string \<Rightarrow> json_error + catalog" where
  "loads contents =
     (case json_loads contents of
        Inl err \<Rightarrow> Inl err
      | Inr v \<Rightarrow> (case json_catalog v of None \<Rightarrow> Inl NotACatalog | Some c \<Rightarrow> Inr c))"

text \<open>
  The invariant of Python's dictionaries, at the three levels of a catalog: no package
  twice, no key twice in a package, no label twice in a dictionary of a package.
\<close>

definition dictionaries :: "catalog \<Rightarrow> bool" where
  "dictionaries c =
     (distinct (map fst c) \<and>
      list_all (\<lambda>(pkg, info). distinct (map fst info) \<and>
                  list_all (\<lambda>(k, d). distinct (map fst d)) info) c)"

text \<open>
  The same invariant on a JSON value, and the number of calls that reading a value
  back takes.
\<close>

fun unique_keys :: "json \<Rightarrow> bool"
  and unique_keys_members :: "(string \<times> json) list \<Rightarrow> bool" where
  "unique_keys (JString s) = True"
| "unique_keys (JObject ms) = (distinct (map fst ms) \<and> unique_keys_members ms)"
| "unique_keys_members [] = True"
| "unique_keys_members ((k, v) # ms) = (unique_keys v \<and> unique_keys_members ms)"

fun fuel :: "json \<Rightarrow> nat" and fuel_members :: "(string \<times> json) list \<Rightarrow> nat" where
  "fuel (JString s) = 1"
| "fuel (JObject ms) = Suc (fuel_members ms)"
| "fuel_members [] = 0"
| "fuel_members ((k, v) # ms) = Suc (fuel v + fuel_members ms)"

section \<open>Concrete catalogs\<close>

text \<open>Fetchers for a machine without network: every source answers with no version.\<close>

definition offline :: "(nat list \<times> nat \<times> nat) fetchers" where
  "offline = \<lparr>pep440 = release_version, docurls_from_environment = (\<lambda>n. []),
               docurls_from_rtd = (\<lambda>n. []), docurls_from_pypi = (\<lambda>n m. [])\<rparr>"

text \<open>Fetchers that find documentation for every name at every source.\<close>

definition everywhere :: "(nat list \<times> nat \<times> nat) fetchers" where
  "everywhere =
     \<lparr>pep440 = release_version,
      docurls_from_environment = (\<lambda>n. [(''1.0'', ''https://'' @ n @ ''.example/'')]),
      docurls_from_rtd = (\<lambda>n. [(''stable'', ''https://'' @ n @ ''.readthedocs.io/en/stable/'')]),
      docurls_from_pypi = (\<lambda>n m. [(''2.0'', ''https://'' @ n @ ''.example/'')])\<rparr>"

text \<open>A user catalog that binds the stable documentation of numpy to the development pages.\<close>

definition numpy_dev :: catalog where
  "numpy_dev = [(''numpy'', [(''versions'', [(''stable'', ''https://numpy.org/devdocs/'')]),
                             (''sources'', [])])]"

definition numpy_dev_lookup :: lookup where
  "numpy_dev_lookup =
     \<lparr>version_map = [(''numpy'', [(''latest'', ''https://numpy.org/devdocs/''),
                                   (''stable'', ''https://numpy.org/devdocs/'')])],
      package_map = [(''numpy'', ''numpy'')]\<rparr>"

text \<open>A package known to PyPI under another name.\<close>

definition pillow :: catalog where
  "pillow = [(''pillow'', [(''versions'', [(''1.0'', ''https://pillow.readthedocs.io/en/stable/'')]),
                           (''sources'', [(''pypi'', ''PIL'')])])]"

section \<open>Facts about dictionaries\<close>

lemma map_of_setitem: "map_of (setitem d k v) = (map_of d)(k \<mapsto> v)"
  by (induction d) (auto simp: fun_eq_iff)

lemma keys_setitem: "fst ` set (setitem d k v) = insert k (fst ` set d)"
  by (simp add: dom_map_of_conv_image_fst[symmetric] map_of_setitem)

lemma distinct_setitem: "distinct (map fst d) \<Longrightarrow> distinct (map fst (setitem d k v))"
  by (induction d) (auto simp: keys_setitem)

lemma setitem_new: "k \<notin> fst ` set d \<Longrightarrow> setitem d k v = d @ [(k, v)]"
  by (induction d) auto

lemma setitem_same: "map_of d k = Some v \<Longrightarrow> setitem d k v = d"
  by (induction d) (auto split: if_splits)

lemma map_of_update: "map_of (update d e) = map_of d ++ map_of (rev e)"
  unfolding update_def
proof (induction e arbitrary: d)
  case Nil
  then show ?case by simp
next
  case (Cons x e)
  obtain k v where x: "x = (k, v)" by (cases x)
  show ?case
    by (simp add: x Cons map_of_setitem fun_eq_iff map_add_def split: option.splits)
qed

lemma keys_update: "fst ` set (update d e) = fst ` set d \<union> fst ` set e"
proof -
  have "fst ` set (update d e) = dom (map_of (update d e))"
    by (simp add: dom_map_of_conv_image_fst)
  also have "\<dots> = dom (map_of d) \<union> dom (map_of (rev e))"
    by (simp add: map_of_update Un_commute)
  also have "\<dots> = fst ` set d \<union> fst ` set e"
    by (simp add: dom_map_of_conv_image_fst)
  finally show ?thesis .
qed

lemma update_new:
  "distinct (map fst e) \<Longrightarrow> fst ` set e \<inter> fst ` set d = {} \<Longrightarrow> update d e = d @ e"
  unfolding update_def
proof (induction e arbitrary: d)
  case Nil
  then show ?case by simp
next
  case (Cons x e)
  obtain k v where x: "x = (k, v)" by (cases x)
  have "fold (\<lambda>(k, v) r. setitem r k v) e (d @ [(k, v)]) = (d @ [(k, v)]) @ e"
    using Cons.prems by (intro Cons.IH) (auto simp: x)
  then show ?case using Cons.prems by (simp add: x setitem_new)
qed

lemma update_Nil [simp]: "update d [] = d"
  by (simp add: update_def)

lemma map_of_rev_distinct: "distinct (map fst xs) \<Longrightarrow> map_of (rev xs) = map_of xs"
  by (rule map_of_inject_set [THEN iffD2]) (auto simp: distinct_rev rev_map[symmetric])

section \<open>Facts about folds and keyed dictionaries\<close>

lemma fold_inv:
  assumes "I s" and "\<And>x s. x \<in> set xs \<Longrightarrow> I s \<Longrightarrow> I (f x s)"
  shows "I (fold f xs s)"
  using assms by (induction xs arbitrary: s) auto

lemma setitem_on_mem:
  "(k, v) \<in> set (setitem_on h m a b) \<Longrightarrow> (k, v) \<in> set m \<or> (v = b \<and> h k = h a)"
  by (induction m) (auto split: if_splits)



lemma setitem_on_keys:
  "(\<lambda>x. h (fst x)) ` set (setitem_on h m a b) = insert (h a) ((\<lambda>x. h (fst x)) ` set m)"
proof (induction m)
  case Nil
  then show ?case by simp
next
  case (Cons x m)
  obtain k v where x: "x = (k, v)" by (cases x)
  show ?case
  proof (cases "h k = h a")
    case True
    then show ?thesis by (simp add: x insert_absorb)
  next
    case False
    then show ?thesis using Cons by (simp add: x insert_commute)
  qed
qed

lemma setitem_on_distinct:
  "distinct (map (\<lambda>x. h (fst x)) m) \<Longrightarrow> distinct (map (\<lambda>x. h (fst x)) (setitem_on h m a b))"
proof (induction m)
  case Nil
  then show ?case by simp
next
  case (Cons x m)
  obtain k v where x: "x = (k, v)" by (cases x)
  show ?case
  proof (cases "h k = h a")
    case True
    then show ?thesis using Cons.prems by (simp add: x)
  next
    case False
    then show ?thesis using Cons by (simp add: x setitem_on_keys)
  qed
qed

lemma lookup_on_mem:
  "distinct (map (\<lambda>x. h (fst x)) m) \<Longrightarrow> (k, v) \<in> set m \<Longrightarrow> lookup_on h m k = Some v"
proof (induction m)
  case Nil
  then show ?case by simp
next
  case (Cons x m)
  obtain k' v' where x: "x = (k', v')" by (cases x)
  show ?case
  proof (cases "(k, v) = x")
    case True
    then show ?thesis by (simp add: x)
  next
    case False
    then have mem: "(k, v) \<in> set m" using Cons.prems by simp
    then have "h k \<in> (\<lambda>x. h (fst x)) ` set m" by force
    then have "h k' \<noteq> h k" using Cons.prems x by force
    then show ?thesis using Cons mem by (simp add: x)
  qed
qed

lemma setitem_on_new:
  "h a \<notin> (\<lambda>x. h (fst x)) ` set m \<Longrightarrow> setitem_on h m a b = m @ [(a, b)]"
  by (induction m) force+

lemma getitem_on_mem:
  "distinct (map (\<lambda>x. h (fst x)) m) \<Longrightarrow> (k, v) \<in> set m \<Longrightarrow> getitem_on h m k = v"
  by (simp add: getitem_on_def lookup_on_mem)

lemma distinct_update: "distinct (map fst d) \<Longrightarrow> distinct (map fst (update d e))"
  unfolding update_def
  by (rule fold_inv) (auto simp: distinct_setitem)

lemma fold_setitem_on_new:
  "distinct (map (\<lambda>k. h (f k)) ks) \<Longrightarrow>
   (\<lambda>x. h (fst x)) ` set m \<inter> (\<lambda>k. h (f k)) ` set ks = {} \<Longrightarrow>
   fold (\<lambda>k m. setitem_on h m (f k) k) ks m = m @ map (\<lambda>k. (f k, k)) ks"
proof (induction ks arbitrary: m)
  case Nil
  then show ?case by simp
next
  case (Cons k ks)
  have new: "setitem_on h m (f k) k = m @ [(f k, k)]"
    using Cons.prems by (intro setitem_on_new) auto
  have "fold (\<lambda>k m. setitem_on h m (f k) k) ks (m @ [(f k, k)])
          = (m @ [(f k, k)]) @ map (\<lambda>k. (f k, k)) ks"
    using Cons.prems by (intro Cons.IH) auto
  then show ?case by (simp add: new)
qed

lemma fold_setitem_new:
  "distinct ks \<Longrightarrow> fst ` set r \<inter> set ks = {} \<Longrightarrow>
   fold (\<lambda>k r. setitem r k (g k)) ks r = r @ map (\<lambda>k. (k, g k)) ks"
proof (induction ks arbitrary: r)
  case Nil
  then show ?case by simp
next
  case (Cons k ks)
  have new: "setitem r k (g k) = r @ [(k, g k)]"
    using Cons.prems by (intro setitem_new) auto
  have "fold (\<lambda>k r. setitem r k (g k)) ks (r @ [(k, g k)])
          = (r @ [(k, g k)]) @ map (\<lambda>k. (k, g k)) ks"
    using Cons.prems by (intro Cons.IH) auto
  then show ?case by (simp add: new)
qed

lemma insort_key_map:
  "insort_key f (g x) (map g ys) = map g (insort_key (\<lambda>x. f (g x)) x ys)"
  by (induction ys) auto

lemma sort_key_map: "sort_key f (map g xs) = map g (sort_key (\<lambda>x. f (g x)) xs)"
  by (induction xs) (auto simp: insort_key_map)



section \<open>The ordering of a version dictionary\<close>

lemma reorder_protected_le: "map_of (reorder_protected V) \<subseteq>\<^sub>m map_of V"
  unfolding reorder_protected_def
  by (rule fold_inv) (auto simp: map_le_def map_of_setitem split: option.splits)

lemma reorder_protected_distinct: "distinct (map fst (reorder_protected V))"
  unfolding reorder_protected_def
  by (rule fold_inv) (auto simp: distinct_setitem split: option.splits)

lemma reorder_version_map_mem:
  "(ver, L) \<in> set (reorder_version_map P V) \<Longrightarrow>
     L \<in> fst ` set V \<and> L \<notin> set protected \<and> (\<exists>ver'. P L = Some ver' \<and> vkey ver' = vkey ver)"
proof -
  have "\<forall>(ver, L) \<in> set (reorder_version_map P V).
          L \<in> fst ` set V \<and> L \<notin> set protected \<and> (\<exists>ver'. P L = Some ver' \<and> vkey ver' = vkey ver)"
    unfolding reorder_version_map_def
  proof (rule fold_inv)
    show "\<forall>(ver, L) \<in> set []. L \<in> fst ` set V \<and> L \<notin> set protected
            \<and> (\<exists>ver'. P L = Some ver' \<and> vkey ver' = vkey ver)"
      by simp
  next
    fix x and s :: "('a version \<times> string) list"
    assume x: "x \<in> set (filter (\<lambda>k. k \<notin> set protected \<and> P k \<noteq> None) (map fst V))"
      and s: "\<forall>(ver, L) \<in> set s. L \<in> fst ` set V \<and> L \<notin> set protected
            \<and> (\<exists>ver'. P L = Some ver' \<and> vkey ver' = vkey ver)"
    from x obtain ver where ver: "P x = Some ver" by auto
    show "\<forall>(ver, L) \<in> set (case P x of Some ver \<Rightarrow> setitem_on vkey s ver x | None \<Rightarrow> s).
            L \<in> fst ` set V \<and> L \<notin> set protected
            \<and> (\<exists>ver'. P L = Some ver' \<and> vkey ver' = vkey ver)"
      using x s ver by (auto dest!: setitem_on_mem)
  qed
  then show "(ver, L) \<in> set (reorder_version_map P V) \<Longrightarrow>
     L \<in> fst ` set V \<and> L \<notin> set protected \<and> (\<exists>ver'. P L = Some ver' \<and> vkey ver' = vkey ver)"
    by auto
qed

lemma reorder_version_map_distinct:
  "distinct (map (\<lambda>x. vkey (fst x)) (reorder_version_map P V))"
  unfolding reorder_version_map_def
  by (rule fold_inv) (auto simp: setitem_on_distinct split: option.splits)

lemma version_label:
  assumes "ver \<in> fst ` set (reorder_version_map P V)"
  shows "\<exists>L. (ver, L) \<in> set (reorder_version_map P V)
           \<and> getitem_on vkey (reorder_version_map P V) ver = L
           \<and> L \<in> fst ` set V \<and> L \<notin> set protected"
proof -
  from assms obtain L where L: "(ver, L) \<in> set (reorder_version_map P V)" by force
  have "getitem_on vkey (reorder_version_map P V) ver = L"
    using reorder_version_map_distinct L by (rule getitem_on_mem)
  then show ?thesis using L reorder_version_map_mem [OF L] by blast
qed

lemma reorder_releases_le:
  assumes "map_of r \<subseteq>\<^sub>m map_of V"
  shows "map_of (reorder_releases V (reorder_version_map P V) r) \<subseteq>\<^sub>m map_of V"
  unfolding reorder_releases_def
proof (rule fold_inv)
  show "map_of r \<subseteq>\<^sub>m map_of V" by fact
next
  fix ver and s :: sdict
  assume ver: "ver \<in> set (rev (sort_key vkey (map fst (reorder_version_map P V))))"
    and s: "map_of s \<subseteq>\<^sub>m map_of V"
  from ver have "ver \<in> fst ` set (reorder_version_map P V)" by simp
  from version_label [OF this] obtain L where
    L: "getitem_on vkey (reorder_version_map P V) ver = L" "L \<in> fst ` set V" by blast
  then obtain u where u: "map_of V L = Some u"
    by (metis domD dom_map_of_conv_image_fst)
  show "map_of (setitem s (getitem_on vkey (reorder_version_map P V) ver)
          (getitem V (getitem_on vkey (reorder_version_map P V) ver))) \<subseteq>\<^sub>m map_of V"
    using s u by (auto simp: L map_of_setitem getitem_def map_le_def)
qed

lemma reorder_releases_distinct:
  "distinct (map fst r) \<Longrightarrow> distinct (map fst (reorder_releases V vm r))"
  unfolding reorder_releases_def
  by (rule fold_inv) (auto simp: distinct_setitem)

lemma map_le_keys: "map_of r \<subseteq>\<^sub>m map_of V \<Longrightarrow> fst ` set r \<subseteq> fst ` set V"
  by (metis dom_map_of_conv_image_fst map_le_implies_dom_le)

lemma reorder_general:
  assumes "distinct (map fst V)"
  shows "map_of (reorder_versions P V) = map_of V"
    and "distinct (map fst (reorder_versions P V))"
    and "fst ` set (reorder_versions P V) = fst ` set V"
proof -
  define R where "R = reorder_releases V (reorder_version_map P V) (reorder_protected V)"
  define F where "F = filter (\<lambda>(k, v). k \<notin> fst ` set R) V"
  have eq: "reorder_versions P V = update R F"
    by (simp add: reorder_versions_def R_def F_def Let_def)
  have le: "map_of R \<subseteq>\<^sub>m map_of V"
    unfolding R_def by (intro reorder_releases_le reorder_protected_le)
  have dR: "distinct (map fst R)"
    unfolding R_def by (intro reorder_releases_distinct reorder_protected_distinct)
  have dF: "distinct (map fst F)"
    unfolding F_def using assms by (simp add: distinct_map_filter)
  show d: "distinct (map fst (reorder_versions P V))"
    unfolding eq using dR by (rule distinct_update)
  have F: "map_of F k = (if k \<in> fst ` set R then None else map_of V k)" for k
  proof -
    have "F = filter (\<lambda>x. fst x \<notin> fst ` set R) V"
      by (simp add: F_def case_prod_unfold)
    then show ?thesis
      using map_of_filter [of "\<lambda>k. k \<notin> fst ` set R" V] by (simp add: restrict_map_def)
  qed
  show m: "map_of (reorder_versions P V) = map_of V"
  proof
    fix k
    show "map_of (reorder_versions P V) k = map_of V k"
    proof (cases "k \<in> fst ` set R")
      case True
      then obtain u where u: "map_of R k = Some u"
        by (metis domD dom_map_of_conv_image_fst)
      then have "map_of V k = Some u" using le by (auto simp: map_le_def dom_def)
      then show ?thesis using True u
        by (simp add: eq map_of_update map_add_def map_of_rev_distinct [OF dF] F)
    next
      case False
      then have "map_of R k = None" by (simp add: map_of_eq_None_iff)
      then show ?thesis using False
        by (simp add: eq map_of_update map_add_def map_of_rev_distinct [OF dF] F split: option.splits)
    qed
  qed
  show "fst ` set (reorder_versions P V) = fst ` set V"
    using m by (metis dom_map_of_conv_image_fst)
qed

lemma p_distinct: "distinct protected" by (simp add: protected_def)

lemma fold_protected:
  "distinct ks \<Longrightarrow> fst ` set r \<inter> set ks = {} \<Longrightarrow>
   fold (\<lambda>key r. case map_of V key of Some v \<Rightarrow> setitem r key v | None \<Rightarrow> r) ks r
     = r @ map (\<lambda>k. (k, getitem V k)) (filter (\<lambda>k. map_of V k \<noteq> None) ks)"
proof (induction ks arbitrary: r)
  case Nil
  then show ?case by simp
next
  case (Cons k ks)
  show ?case
  proof (cases "map_of V k")
    case None
    then show ?thesis using Cons by simp
  next
    case (Some v)
    have new: "setitem r k v = r @ [(k, v)]"
      using Cons.prems by (intro setitem_new) auto
    have "fold (\<lambda>key r. case map_of V key of Some v \<Rightarrow> setitem r key v | None \<Rightarrow> r) ks
            (r @ [(k, v)])
          = (r @ [(k, v)]) @ map (\<lambda>k. (k, getitem V k)) (filter (\<lambda>k. map_of V k \<noteq> None) ks)"
      using Cons.prems by (intro Cons.IH) auto
    then show ?thesis using Some by (simp add: new getitem_def)
  qed
qed

lemma reorder_protected_shape:
  "reorder_protected V
     = map (\<lambda>k. (k, getitem V k)) (filter (\<lambda>k. map_of V k \<noteq> None) protected)"
  unfolding reorder_protected_def
  using fold_protected [OF p_distinct, of "[]" V] by simp

lemma reorder_protected_keys: "fst ` set (reorder_protected V) \<subseteq> set protected"
  by (auto simp: reorder_protected_shape)

lemma keys_filter_notin:
  "fst ` set (filter (\<lambda>(k, v). k \<notin> A) V) = fst ` set V - A"
  by (induction V) auto

lemma reorder_keys: "fst ` set (reorder_versions P V) = fst ` set V"
proof -
  define R where "R = reorder_releases V (reorder_version_map P V) (reorder_protected V)"
  have "map_of R \<subseteq>\<^sub>m map_of V"
    unfolding R_def by (intro reorder_releases_le reorder_protected_le)
  then have sub: "fst ` set R \<subseteq> fst ` set V" by (rule map_le_keys)
  have "fst ` set (reorder_versions P V)
          = fst ` set R \<union> fst ` set (filter (\<lambda>(k, v). k \<notin> fst ` set R) V)"
    by (simp add: reorder_versions_def R_def Let_def keys_update)
  also have "\<dots> = fst ` set R \<union> (fst ` set V - fst ` set R)"
    by (simp only: keys_filter_notin)
  also have "\<dots> = fst ` set V" using sub by blast
  finally show ?thesis .
qed

lemma reorder_version_map_shape:
  assumes "distinct_releases P V"
  shows "reorder_version_map P V
           = map (\<lambda>k. (the (P k), k))
               (filter (\<lambda>k. k \<notin> set protected \<and> P k \<noteq> None) (map fst V))"
proof -
  define ks where "ks = filter (\<lambda>k. k \<notin> set protected \<and> P k \<noteq> None) (map fst V)"
  have P: "P k \<noteq> None" if "k \<in> set ks" for k
    using that by (simp add: ks_def)
  have "reorder_version_map P V
          = fold (\<lambda>k m. case P k of Some ver \<Rightarrow> setitem_on vkey m ver k | None \<Rightarrow> m) ks []"
    by (simp only: reorder_version_map_def ks_def)
  also have "\<dots> = fold (\<lambda>k m. setitem_on vkey m (the (P k)) k) ks []"
  proof (rule fold_cong)
    fix k assume "k \<in> set ks"
    from P [OF this] obtain ver where "P k = Some ver" by blast
    then show "(\<lambda>m. case P k of Some ver \<Rightarrow> setitem_on vkey m ver k | None \<Rightarrow> m)
                 = (\<lambda>m. setitem_on vkey m (the (P k)) k)"
      by simp
  qed simp_all
  also have "\<dots> = [] @ map (\<lambda>k. (the (P k), k)) ks"
  proof (rule fold_setitem_on_new)
    show "distinct (map (\<lambda>k. vkey (the (P k))) ks)"
      using assms by (simp only: distinct_releases_def ks_def)
  qed simp
  finally show ?thesis by (simp only: ks_def append_Nil)
qed

lemma reorder_releases_shape:
  assumes dV: "distinct (map fst V)" and dr: "distinct_releases P V"
    and r: "fst ` set r \<subseteq> set protected"
  shows "reorder_releases V (reorder_version_map P V) r
           = r @ map (\<lambda>k. (k, getitem V k))
                   (rev (sort_key (\<lambda>k. vkey (the (P k)))
                      (filter (\<lambda>k. k \<notin> set protected \<and> P k \<noteq> None) (map fst V))))"
proof -
  define ks where "ks = filter (\<lambda>k. k \<notin> set protected \<and> P k \<noteq> None) (map fst V)"
  define S where "S = sort_key (\<lambda>k. vkey (the (P k))) ks"
  define vm where "vm = reorder_version_map P V"
  have vm: "vm = map (\<lambda>k. (the (P k), k)) ks"
    unfolding vm_def ks_def using dr by (rule reorder_version_map_shape)
  have dvm: "distinct (map (\<lambda>x. vkey (fst x)) vm)"
    unfolding vm_def by (rule reorder_version_map_distinct)
  have setS: "set S = set ks" by (simp add: S_def)
  have label: "getitem_on vkey vm (the (P k)) = k" if "k \<in> set S" for k
  proof -
    have "(the (P k), k) \<in> set vm" using that by (simp add: vm setS)
    with dvm show ?thesis by (rule getitem_on_mem)
  qed
  have sorted: "sort_key vkey (map fst vm) = map (\<lambda>k. the (P k)) S"
    by (simp add: vm S_def sort_key_map comp_def)
  have dS: "distinct (rev S)"
    using dV by (simp add: S_def ks_def distinct_map_filter)
  have disj: "fst ` set r \<inter> set (rev S) = {}"
    using r by (auto simp: setS ks_def)
  have "reorder_releases V vm r
          = fold (\<lambda>ver r. setitem r (getitem_on vkey vm ver) (getitem V (getitem_on vkey vm ver)))
              (map (\<lambda>k. the (P k)) (rev S)) r"
    by (simp add: reorder_releases_def sorted rev_map)
  also have "\<dots> = fold (\<lambda>k r. setitem r (getitem_on vkey vm (the (P k)))
                               (getitem V (getitem_on vkey vm (the (P k))))) (rev S) r"
    by (simp add: fold_map comp_def)
  also have "\<dots> = fold (\<lambda>k r. setitem r k (getitem V k)) (rev S) r"
    by (rule fold_cong) (simp_all add: label)
  also have "\<dots> = r @ map (\<lambda>k. (k, getitem V k)) (rev S)"
    using dS disj by (rule fold_setitem_new)
  finally show ?thesis by (simp only: vm_def S_def ks_def)
qed

lemma reorder_shape:
  assumes dV: "distinct (map fst V)" and dr: "distinct_releases P V"
  shows "reorder_versions P V = reorder_spec P V"
proof -
  define A where "A = map (\<lambda>k. (k, getitem V k)) (filter (\<lambda>k. map_of V k \<noteq> None) protected)"
  define ks where "ks = filter (\<lambda>k. k \<notin> set protected \<and> P k \<noteq> None) (map fst V)"
  define B where "B = map (\<lambda>k. (k, getitem V k)) (rev (sort_key (\<lambda>k. vkey (the (P k))) ks))"
  define R where "R = reorder_releases V (reorder_version_map P V) (reorder_protected V)"
  have R: "R = A @ B"
    unfolding R_def A_def B_def ks_def
    using reorder_releases_shape [OF dV dr reorder_protected_keys]
    by (simp only: reorder_protected_shape)
  have keysA: "fst ` set A = {k \<in> set protected. map_of V k \<noteq> None}"
    by (auto simp: A_def image_iff)
  have keysB: "fst ` set B = set ks"
    by (auto simp: B_def image_iff)
  have keysR: "fst ` set R = {k \<in> set protected. map_of V k \<noteq> None} \<union> set ks"
    by (simp add: R image_Un keysA keysB)
  have F: "filter (\<lambda>(k, v). k \<notin> fst ` set R) V
             = filter (\<lambda>(k, v). k \<notin> set protected \<and> P k = None) V"
  proof (rule filter_cong [OF refl])
    fix x assume x: "x \<in> set V"
    obtain k v where kv: "x = (k, v)" by (cases x)
    have "map_of V k \<noteq> None" using x kv
      by (metis domIff dom_map_of_conv_image_fst fst_conv image_eqI)
    moreover have "k \<in> set (map fst V)" using x kv by force
    ultimately show "(case x of (k, v) \<Rightarrow> k \<notin> fst ` set R)
        = (case x of (k, v) \<Rightarrow> k \<notin> set protected \<and> P k = None)"
      by (auto simp: kv keysR ks_def)
  qed
  have dF: "distinct (map fst (filter (\<lambda>(k, v). k \<notin> fst ` set R) V))"
    using dV by (simp add: distinct_map_filter)
  have disj: "fst ` set (filter (\<lambda>(k, v). k \<notin> fst ` set R) V) \<inter> fst ` set R = {}"
    by (simp only: keys_filter_notin) blast
  have "reorder_versions P V = update R (filter (\<lambda>(k, v). k \<notin> fst ` set R) V)"
    by (simp add: reorder_versions_def R_def Let_def)
  also have "\<dots> = R @ filter (\<lambda>(k, v). k \<notin> fst ` set R) V"
    using dF disj by (rule update_new)
  also have "\<dots> = A @ B @ filter (\<lambda>(k, v). k \<notin> set protected \<and> P k = None) V"
    unfolding F by (simp only: R append_assoc)
  finally show ?thesis
    by (simp only: reorder_spec_def A_def B_def ks_def)
qed

lemma reorder_idem:
  assumes dV: "distinct (map fst V)" and dr: "distinct_releases P V"
  shows "reorder_versions P (reorder_versions P V) = reorder_versions P V"
    and "distinct_releases P (reorder_versions P V)"
proof -
  define q where "q = (\<lambda>k. k \<notin> set protected \<and> P k \<noteq> None)"
  define c where "c = (\<lambda>(k, v :: string). k \<notin> set protected \<and> P k = None)"
  define \<phi> where "\<phi> = (\<lambda>k. vkey (the (P k)))"
  define ks where "ks = filter q (map fst V)"
  define S where "S = sort_key \<phi> ks"
  define A where "A = map (\<lambda>k. (k, getitem V k)) (filter (\<lambda>k. map_of V k \<noteq> None) protected)"
  define B where "B = map (\<lambda>k. (k, getitem V k)) (rev S)"
  define C where "C = filter c V"
  define R where "R = reorder_versions P V"
  have R: "R = A @ B @ C"
    unfolding R_def reorder_shape [OF dV dr]
    by (simp only: reorder_spec_def A_def B_def C_def S_def ks_def q_def c_def \<phi>_def)
  have mR: "map_of R = map_of V" and dR: "distinct (map fst R)"
    unfolding R_def using reorder_general [OF dV] by blast+
  have gR: "getitem R = getitem V"
    by (rule ext) (simp add: getitem_def mR)
  have setS: "set S = set ks" by (simp add: S_def)
  have inj: "inj_on \<phi> (set ks)" and dks: "distinct ks"
    using dr by (simp_all add: distinct_releases_def ks_def q_def \<phi>_def distinct_map)
  have fA: "filter q (map fst A) = []"
    by (simp add: A_def q_def comp_def filter_empty_conv)
  have fB: "filter q (map fst B) = rev S"
    by (simp add: B_def comp_def setS ks_def)
  have fC: "filter q (map fst C) = []"
    by (auto simp: C_def c_def q_def filter_empty_conv)
  have ksR: "filter q (map fst R) = rev S"
    by (simp add: R fA fB fC)
  have "distinct_releases P R = distinct (map \<phi> (filter q (map fst R)))"
    by (simp only: distinct_releases_def q_def \<phi>_def)
  also have "\<dots> = distinct (map \<phi> (rev S))"
    by (simp only: ksR)
  also have "\<dots>"
    using inj dks by (simp add: distinct_map setS S_def)
  finally show drR: "distinct_releases P (reorder_versions P V)"
    by (simp only: R_def)
  have sortS: "sort_key \<phi> (rev S) = S"
  proof (rule sort_key_inj_key_eq)
    show "mset (rev S) = mset S" by simp
    show "inj_on \<phi> (set (rev S))" using inj by (simp add: setS)
    show "sorted (map \<phi> S)" by (simp add: S_def)
  qed
  have cA: "filter c A = []"
    by (simp add: A_def c_def filter_empty_conv)
  have cB: "filter c B = []"
    by (auto simp: B_def c_def filter_empty_conv setS ks_def q_def)
  have cC: "filter c C = C"
    by (simp add: C_def)
  have "reorder_versions P R = reorder_spec P R"
    using dR drR unfolding R_def by (rule reorder_shape)
  also have "\<dots> = map (\<lambda>k. (k, getitem R k)) (filter (\<lambda>k. map_of R k \<noteq> None) protected)
      @ map (\<lambda>k. (k, getitem R k)) (rev (sort_key \<phi> (filter q (map fst R))))
      @ filter c R"
    by (simp only: reorder_spec_def q_def c_def \<phi>_def)
  also have "\<dots> = A @ B @ C"
  proof -
    have A': "map (\<lambda>k. (k, getitem R k)) (filter (\<lambda>k. map_of R k \<noteq> None) protected) = A"
      by (simp only: A_def gR mR)
    have B': "map (\<lambda>k. (k, getitem R k)) (rev (sort_key \<phi> (filter q (map fst R)))) = B"
      by (simp only: B_def gR ksR sortS)
    have C': "filter c R = C"
      by (simp add: R cA cB cC)
    show ?thesis by (simp only: A' B' C')
  qed
  finally show "reorder_versions P (reorder_versions P V) = reorder_versions P V"
    by (simp only: R R_def [symmetric])
qed

lemma reorder_strict:
  assumes "distinct_releases P V"
  shows "sorted_wrt (\<lambda>a b. vkey (the (P a)) > vkey (the (P b)))
           (rev (sort_key (\<lambda>k. vkey (the (P k)))
                   (filter (\<lambda>k. k \<notin> set protected \<and> P k \<noteq> None) (map fst V))))"
proof -
  define \<phi> where "\<phi> = (\<lambda>k. vkey (the (P k)))"
  define ks where "ks = filter (\<lambda>k. k \<notin> set protected \<and> P k \<noteq> None) (map fst V)"
  have d: "distinct (map \<phi> ks)"
    using assms by (simp add: distinct_releases_def ks_def \<phi>_def)
  then have "distinct (map \<phi> (sort_key \<phi> ks))"
    by (simp add: distinct_map)
  moreover have "sorted (map \<phi> (sort_key \<phi> ks))" by simp
  ultimately have "sorted_wrt (<) (map \<phi> (sort_key \<phi> ks))"
    by (simp add: strict_sorted_iff)
  then have "sorted_wrt (\<lambda>a b. \<phi> a < \<phi> b) (sort_key \<phi> ks)"
    by (simp add: sorted_wrt_map)
  then have "sorted_wrt (\<lambda>a b. \<phi> b < \<phi> a) (rev (sort_key \<phi> ks))"
    by (simp add: sorted_wrt_rev)
  then show ?thesis by (simp add: \<phi>_def ks_def)
qed

text \<open>
  What holds of every version dictionary: the reordered dictionary has the same keys, and
  reordering is idempotent as a mapping (Python's \<open>==\<close> on dictionaries).  When no two
  labels outside the protected keys are the same version, the result is moreover in the
  order of \<open>reorder_spec\<close> (protected keys that are present in their fixed order, then the
  labels that are versions in strictly decreasing order, then the remaining labels in the
  order of the input), and reordering it again changes nothing.
\<close>

lemma reorder_versions_ordered:
  assumes "distinct (map fst V)"
  shows "set (map fst (reorder_versions P V)) = set (map fst V)
       \<and> map_of (reorder_versions P (reorder_versions P V)) = map_of (reorder_versions P V)
       \<and> (distinct_releases P V \<longrightarrow>
            reorder_versions P V = reorder_spec P V
          \<and> reorder_versions P (reorder_versions P V) = reorder_versions P V
          \<and> sorted_wrt (\<lambda>a b. vkey (the (P b)) < vkey (the (P a)))
               (rev (sort_key (\<lambda>k. vkey (the (P k)))
                       (filter (\<lambda>k. k \<notin> set protected \<and> P k \<noteq> None) (map fst V)))))"
proof -
  have "set (map fst (reorder_versions P V)) = set (map fst V)"
    using reorder_keys [of P V] by simp
  moreover have "map_of (reorder_versions P (reorder_versions P V)) = map_of (reorder_versions P V)"
    using reorder_general(2) [OF assms] by (rule reorder_general(1))
  moreover have "reorder_versions P V = reorder_spec P V" if "distinct_releases P V"
    using assms that by (rule reorder_shape)
  moreover have "reorder_versions P (reorder_versions P V) = reorder_versions P V"
    if "distinct_releases P V"
    using assms that by (rule reorder_idem(1))
  ultimately show ?thesis
    using reorder_strict [of P V] by blast
qed

lemma reorder_versions_ordered_example:
  "distinct (map fst [(''foo'', ''F''), (''1.0'', ''A''), (''2.0'', ''B''), (''stable'', ''S''),
                      (''latest'', ''L'')])
   \<and> distinct_releases release_version
        [(''foo'', ''F''), (''1.0'', ''A''), (''2.0'', ''B''), (''stable'', ''S''), (''latest'', ''L'')]
   \<and> reorder_versions release_version
        [(''foo'', ''F''), (''1.0'', ''A''), (''2.0'', ''B''), (''stable'', ''S''), (''latest'', ''L'')]
      = [(''latest'', ''L''), (''stable'', ''S''), (''2.0'', ''B''), (''1.0'', ''A''), (''foo'', ''F'')]
   \<and> reorder_versions release_version
        [(''latest'', ''L''), (''stable'', ''S''), (''2.0'', ''B''), (''1.0'', ''A''), (''foo'', ''F'')]
      = [(''latest'', ''L''), (''stable'', ''S''), (''2.0'', ''B''), (''1.0'', ''A''), (''foo'', ''F'')]"
proof -
  let ?V = "[(''foo'', ''F''), (''1.0'', ''A''), (''2.0'', ''B''), (''stable'', ''S''),
             (''latest'', ''L'')]"
  have d: "distinct (map fst ?V)" by simp
  have r: "distinct_releases release_version ?V" by code_simp
  have s: "reorder_spec release_version ?V
             = [(''latest'', ''L''), (''stable'', ''S''), (''2.0'', ''B''), (''1.0'', ''A''),
                (''foo'', ''F'')]"
    by code_simp
  from reorder_versions_ordered [OF d, of release_version] r
  have "reorder_versions release_version ?V = reorder_spec release_version ?V"
    and "reorder_versions release_version (reorder_versions release_version ?V)
           = reorder_versions release_version ?V"
    by blast+
  then show ?thesis using d r s by simp
qed

text \<open>
  C5.  \<open>_reorder_versions\<close> is to put the protected keys first, then the labels that are
  versions by decreasing version, then every other label in the order of the input, and to
  be idempotent.  At the dictionary \<open>foo\<close>, \<open>1.0\<close>, \<open>1.0.0\<close> it does not: \<open>version_map\<close> is
  keyed by the version object, \<open>1.0\<close> and \<open>1.0.0\<close> are one version, and only the label
  stored last stays in it.  The other label, a version all the same, is added with the
  labels that are no versions, behind \<open>foo\<close>; and reordering the result puts \<open>1.0\<close> in
  front, reordering once more \<open>1.0.0\<close>, so that the order never settles.  The keys and
  their URLs are kept.
\<close>

theorem reorder_versions_equal_releases:
  "reorder_versions release_version [(''foo'', ''F''), (''1.0'', ''A''), (''1.0.0'', ''B'')]
     = [(''1.0.0'', ''B''), (''foo'', ''F''), (''1.0'', ''A'')]
   \<and> reorder_versions release_version [(''1.0.0'', ''B''), (''foo'', ''F''), (''1.0'', ''A'')]
     = [(''1.0'', ''A''), (''1.0.0'', ''B''), (''foo'', ''F'')]
   \<and> reorder_versions release_version [(''1.0'', ''A''), (''1.0.0'', ''B''), (''foo'', ''F'')]
     = [(''1.0.0'', ''B''), (''1.0'', ''A''), (''foo'', ''F'')]
   \<and> release_version ''foo'' = None
   \<and> release_version ''1.0'' = Some (Version ([1], 1, 0) ''1.0'' False False)
   \<and> release_version ''1.0.0'' = Some (Version ([1], 1, 0) ''1.0.0'' False False)"
  by code_simp

section \<open>Expansion of a dictionary without version labels\<close>

lemma setitem_on_key_mem:
  "(k, v) \<in> set (setitem_on h m a b) \<Longrightarrow> k = a \<or> k \<in> fst ` set m"
  by (induction m) (force split: if_splits)+

lemma prepare_version_map_keys:
  "(k, L) \<in> set (prepare_version_map P V) \<Longrightarrow> k \<in> string2version P ` set (map fst V)"
proof -
  have "\<forall>x \<in> set (prepare_version_map P V). fst x \<in> string2version P ` set (map fst V)"
    unfolding prepare_version_map_def
  proof (rule fold_inv)
    show "\<forall>x \<in> set []. fst x \<in> string2version P ` set (map fst V)" by simp
  next
    fix x and s :: "('a version option \<times> string) list"
    assume "x \<in> set (map fst V)"
      and "\<forall>x \<in> set s. fst x \<in> string2version P ` set (map fst V)"
    then show "\<forall>y \<in> set (setitem_on (map_option vkey) s (string2version P x) x).
                 fst y \<in> string2version P ` set (map fst V)"
      by (force dest!: setitem_on_key_mem)
  qed
  then show "(k, L) \<in> set (prepare_version_map P V) \<Longrightarrow> k \<in> string2version P ` set (map fst V)"
    by force
qed

lemma sorted_versions_none:
  assumes "\<forall>k \<in> set (map fst versions). string2version P k = None"
  shows "sorted_versions (prepare_version_map P versions) = []"
proof -
  have "k = None" if "(k, L) \<in> set (prepare_version_map P versions)" for k L
    using prepare_version_map_keys [OF that] assms by auto
  then have "\<forall>k \<in> set (map fst (prepare_version_map P versions)). k = None"
    by auto
  then have "concat (map (\<lambda>k. case k of Some ver \<Rightarrow> [ver] | None \<Rightarrow> [])
               (map fst (prepare_version_map P versions))) = []"
    by (simp add: concat_eq_Nil_conv)
  then show ?thesis by (simp only: sorted_versions_def sort_key_simps)
qed

lemma first_url_chain:
  "(case py_or (map_of V a) (py_or (map_of V b) (py_or (map_of V c)
            (py_or (map_of V d) (Some [])))) of Some u \<Rightarrow> u | None \<Rightarrow> [])
     = first_url V [a, b, c, d]"
  by (simp add: py_or_def split: option.splits)

text \<open>
  C6, as stated, at the empty dictionary, which has no label that parses: the expansion
  is the empty dictionary, as the guard \<open>if not versions: return versions\<close> says, and has no
  entry \<open>latest\<close> at all, where the fallback chain would end in the empty string.
\<close>

theorem prepare_versions_empty:
  "prepare_versions release_version [] = []
   \<and> map_of (prepare_versions release_version []) ''latest'' = None"
  by (simp add: prepare_versions_def)

text \<open>
  C6, amended.  For every version dictionary that is not empty and has no label that
  parses, the entry \<open>latest\<close> of the expansion is the first of the entries \<open>latest\<close>,
  \<open>stable\<close>, \<open>master\<close>, \<open>main\<close> that is present with a URL that is not empty (Python's
  \<open>or\<close> passes over an empty string as it passes over \<open>None\<close>), or the empty string;
  \<open>stable\<close> is computed alike from \<open>stable\<close>, \<open>latest\<close>, \<open>master\<close>, \<open>main\<close>.  The witness is
  the numpy dictionary of the scenario, whose \<open>latest\<close> is the URL of its \<open>stable\<close>.
\<close>

theorem prepare_versions_aliases_only:
  assumes "versions \<noteq> []"
    and "\<forall>k \<in> set (map fst versions). string2version P k = None"
  shows "map_of (prepare_versions P versions) ''latest''
           = Some (first_url versions [''latest'', ''stable'', ''master'', ''main''])
       \<and> map_of (prepare_versions P versions) ''stable''
           = Some (first_url versions [''stable'', ''latest'', ''master'', ''main''])"
proof -
  have "prepare_versions P versions
          = setitem (setitem [] ''latest''
                (first_url versions [''latest'', ''stable'', ''master'', ''main'']))
              ''stable'' (first_url versions [''stable'', ''latest'', ''master'', ''main''])"
    using assms(1) sorted_versions_none [OF assms(2)]
    by (simp only: prepare_versions_def Let_def first_url_chain if_False if_True not_True_eq_False
          simp_thms)
  then show ?thesis by (simp add: map_of_setitem)
qed

theorem prepare_versions_aliases_only_witness:
  "[(''stable'', ''https://numpy.org/doc/stable/''), (''devdocs'', ''https://numpy.org/devdocs/'')] \<noteq> []
   \<and> string2version release_version ''stable'' = None
   \<and> string2version release_version ''devdocs'' = None
   \<and> map_of (prepare_versions release_version
         [(''stable'', ''https://numpy.org/doc/stable/''),
          (''devdocs'', ''https://numpy.org/devdocs/'')]) ''latest''
       = Some ''https://numpy.org/doc/stable/''"
proof -
  have s: "string2version release_version ''stable'' = None"
    and d: "string2version release_version ''devdocs'' = None"
    by code_simp+
  have h: "\<forall>k \<in> set (map fst [(''stable'', ''https://numpy.org/doc/stable/''),
                                 (''devdocs'', ''https://numpy.org/devdocs/'')]).
             string2version release_version k = None"
    using s d by simp
  have n: "[(''stable'', ''https://numpy.org/doc/stable/''),
            (''devdocs'', ''https://numpy.org/devdocs/'')] \<noteq> []" by simp
  from prepare_versions_aliases_only [OF n h] s d show ?thesis by simp
qed

section \<open>Expansion of a dictionary with version labels\<close>

lemma setitem_on_preserve:
  "(k, v) \<in> set m \<Longrightarrow> h a \<noteq> h k \<Longrightarrow> (k, v) \<in> set (setitem_on h m a b)"
  by (induction m) auto

lemma fold_setitem_on_distinct:
  "distinct (map (\<lambda>x. h (fst x)) m) \<Longrightarrow>
   distinct (map (\<lambda>x. h (fst x)) (fold (\<lambda>k m. setitem_on h m (f k) k) ks m))"
  by (rule fold_inv) (auto simp: setitem_on_distinct)

lemma fold_setitem_on_keys:
  "(\<lambda>x. h (fst x)) ` set (fold (\<lambda>k m. setitem_on h m (f k) k) ks m)
     = (\<lambda>x. h (fst x)) ` set m \<union> (\<lambda>k. h (f k)) ` set ks"
proof (induction ks arbitrary: m)
  case Nil
  then show ?case by simp
next
  case (Cons k ks)
  show ?case by (simp add: Cons.IH setitem_on_keys Un_commute insert_commute)
qed

lemma fold_setitem_on_mem:
  assumes "(k, L) \<in> set (fold (\<lambda>k m. setitem_on h m (f k) k) ks [])"
  shows "L \<in> set ks \<and> h (f L) = h k \<and> k \<in> f ` set ks"
proof -
  have "\<forall>x \<in> set (fold (\<lambda>k m. setitem_on h m (f k) k) ks []).
          snd x \<in> set ks \<and> h (f (snd x)) = h (fst x) \<and> fst x \<in> f ` set ks"
  proof (rule fold_inv)
    show "\<forall>x \<in> set []. snd x \<in> set ks \<and> h (f (snd x)) = h (fst x) \<and> fst x \<in> f ` set ks"
      by simp
  next
    fix a s
    assume a: "a \<in> set ks"
      and s: "\<forall>x \<in> set s. snd x \<in> set ks \<and> h (f (snd x)) = h (fst x) \<and> fst x \<in> f ` set ks"
    show "\<forall>x \<in> set (setitem_on h s (f a) a).
            snd x \<in> set ks \<and> h (f (snd x)) = h (fst x) \<and> fst x \<in> f ` set ks"
    proof
      fix x assume x: "x \<in> set (setitem_on h s (f a) a)"
      obtain k v where kv: "x = (k, v)" by (cases x)
      from x have 1: "(k, v) \<in> set s \<or> (v = a \<and> h k = h (f a))"
        unfolding kv by (rule setitem_on_mem)
      from x have 2: "k = f a \<or> k \<in> fst ` set s"
        unfolding kv by (rule setitem_on_key_mem)
      from 2 have k: "k \<in> f ` set ks"
        using a s by force
      from 1 show "snd x \<in> set ks \<and> h (f (snd x)) = h (fst x) \<and> fst x \<in> f ` set ks"
        using a s k by (force simp: kv)
    qed
  qed
  with assms show ?thesis by force
qed

lemma fold_setitem_on_kept:
  "(k, v) \<in> set m \<Longrightarrow> \<forall>L \<in> set ks. h (f L) \<noteq> h k \<Longrightarrow>
   (k, v) \<in> set (fold (\<lambda>k m. setitem_on h m (f k) k) ks m)"
proof (induction ks arbitrary: m)
  case Nil
  then show ?case by simp
next
  case (Cons a ks)
  have "(k, v) \<in> set (setitem_on h m (f a) a)"
    using Cons.prems by (intro setitem_on_preserve) auto
  then show ?case using Cons.prems by (simp add: Cons.IH)
qed

lemma fold_setitem_on_unique:
  assumes "L \<in> set ks" and "\<forall>L' \<in> set ks. h (f L') = h (f L) \<longrightarrow> L' = L"
    and "h (f L) \<notin> (\<lambda>x. h (fst x)) ` set m" and "distinct ks"
  shows "(f L, L) \<in> set (fold (\<lambda>k m. setitem_on h m (f k) k) ks m)"
  using assms
proof (induction ks arbitrary: m)
  case Nil
  then show ?case by simp
next
  case (Cons a ks)
  show ?case
  proof (cases "a = L")
    case True
    have new: "setitem_on h m (f L) L = m @ [(f L, L)]"
      using Cons.prems(3) by (rule setitem_on_new)
    have "\<forall>L' \<in> set ks. h (f L') \<noteq> h (f L)"
      using Cons.prems(2,4) True by auto
    then have "(f L, L) \<in> set (fold (\<lambda>k m. setitem_on h m (f k) k) ks (m @ [(f L, L)]))"
      by (intro fold_setitem_on_kept) auto
    then show ?thesis by (simp add: True new)
  next
    case False
    then have L: "L \<in> set ks" using Cons.prems(1) by simp
    have ne: "h (f a) \<noteq> h (f L)" using Cons.prems(2) False by auto
    have "h (f L) \<notin> (\<lambda>x. h (fst x)) ` set (setitem_on h m (f a) a)"
      using Cons.prems(3) ne by (simp add: setitem_on_keys)
    then have "(f L, L) \<in> set (fold (\<lambda>k m. setitem_on h m (f k) k) ks (setitem_on h m (f a) a))"
      using L Cons.prems(2,4) by (intro Cons.IH) auto
    then show ?thesis by simp
  qed
qed

lemma set_sorted_versions: "set (sorted_versions vm) = {k. Some k \<in> fst ` set vm}"
proof -
  have "set (concat (map (\<lambda>k. case k of Some ver \<Rightarrow> [ver] | None \<Rightarrow> []) ks)) = {k. Some k \<in> set ks}"
    for ks :: "'a version option list"
    by (induction ks) (auto split: option.splits)
  from this [of "map fst vm"] show ?thesis by (simp add: sorted_versions_def)
qed

lemma sorted_sorted_versions: "sorted (map vkey (sorted_versions vm))"
  by (simp add: sorted_versions_def)

lemma sorted_last_max:
  "sorted (map f xs) \<Longrightarrow> x \<in> set xs \<Longrightarrow> f x \<le> f (last xs)"
proof (induction xs)
  case Nil
  then show ?case by simp
next
  case (Cons a xs)
  then show ?case by (cases "xs = []") auto
qed

lemma map_of_prepare_step:
  "map_of (prepare_step V vm k r) x
     = (if x \<in> set (step_keys vm k) then Some (getitem V (step_label vm k)) else map_of r x)"
  by (simp add: prepare_step_def step_keys_def step_label_def Let_def map_of_setitem)

lemma fold_step_unwritten:
  "\<forall>k \<in> set ks. x \<notin> set (step_keys vm k) \<Longrightarrow>
   map_of (fold (prepare_step V vm) ks r) x = map_of r x"
  by (induction ks arbitrary: r) (simp_all add: map_of_prepare_step)

lemma fold_step_agree:
  "map_of r x = Some u \<Longrightarrow>
   \<forall>k \<in> set ks. x \<in> set (step_keys vm k) \<longrightarrow> getitem V (step_label vm k) = u \<Longrightarrow>
   map_of (fold (prepare_step V vm) ks r) x = Some u"
  by (induction ks arbitrary: r) (simp_all add: map_of_prepare_step)

lemma fold_step_written:
  "k \<in> set ks \<Longrightarrow> x \<in> set (step_keys vm k) \<Longrightarrow>
   \<forall>k' \<in> set ks. x \<in> set (step_keys vm k') \<longrightarrow> getitem V (step_label vm k') = u \<Longrightarrow>
   map_of (fold (prepare_step V vm) ks r) x = Some u"
proof (induction ks arbitrary: r)
  case Nil
  then show ?case by simp
next
  case (Cons a ks)
  show ?case
  proof (cases "x \<in> set (step_keys vm a)")
    case True
    then have "map_of (prepare_step V vm a r) x = Some u"
      using Cons.prems(3) by (simp add: map_of_prepare_step)
    then have "map_of (fold (prepare_step V vm) ks (prepare_step V vm a r)) x = Some u"
      using Cons.prems(3) by (intro fold_step_agree) auto
    then show ?thesis by simp
  next
    case False
    then have "k \<in> set ks" using Cons.prems(1,2) by auto
    then have "map_of (fold (prepare_step V vm) ks (prepare_step V vm a r)) x = Some u"
      using Cons.prems(2,3) by (intro Cons.IH) auto
    then show ?thesis by simp
  qed
qed

lemma fold_step_keys:
  "x \<in> fst ` set r \<Longrightarrow> x \<in> fst ` set (fold (prepare_step V vm) ks r)"
proof -
  assume "x \<in> fst ` set r"
  then have "map_of r x \<noteq> None" by (simp add: map_of_eq_None_iff)
  then have "map_of (fold (prepare_step V vm) ks r) x \<noteq> None"
    by (induction ks arbitrary: r) (simp_all add: map_of_prepare_step)
  then show ?thesis by (simp add: map_of_eq_None_iff)
qed

lemma set_parsed:
  "set (parsed P V) = {v. \<exists>L \<in> set (map fst V). string2version P L = Some v}"
proof -
  have "set (concat (map (\<lambda>L. case string2version P L of Some v \<Rightarrow> [v] | None \<Rightarrow> []) ks))
          = {v. \<exists>L \<in> set ks. string2version P L = Some v}" for ks
    by (induction ks) (auto split: option.splits)
  from this [of "map fst V"] show ?thesis by (simp only: parsed_def)
qed

lemma version_map_distinct:
  "distinct (map (\<lambda>x. map_option vkey (fst x)) (prepare_version_map P V))"
  unfolding prepare_version_map_def by (rule fold_setitem_on_distinct) simp

lemma version_map_mem:
  assumes "(k, L) \<in> set (prepare_version_map P V)"
  shows "L \<in> set (map fst V)"
    and "map_option vkey (string2version P L) = map_option vkey k"
    and "k \<in> string2version P ` set (map fst V)"
  using fold_setitem_on_mem [OF assms [unfolded prepare_version_map_def]] by blast+

lemma version_map_cover:
  assumes "L \<in> set (map fst V)" and "string2version P L = Some v"
  shows "\<exists>k L'. (Some k, L') \<in> set (prepare_version_map P V) \<and> vkey k = vkey v"
proof -
  have "map_option vkey (string2version P L)
          \<in> (\<lambda>x. map_option vkey (fst x)) ` set (prepare_version_map P V)"
    unfolding prepare_version_map_def fold_setitem_on_keys using assms(1) by simp
  then obtain k L' where m: "(k, L') \<in> set (prepare_version_map P V)"
    and k: "map_option vkey k = map_option vkey (string2version P L)"
    by force
  from k assms(2) obtain kv where "k = Some kv" "vkey kv = vkey v" by auto
  with m show ?thesis by blast
qed

lemma step_label_props:
  assumes "k \<in> set (sorted_versions (prepare_version_map P V))"
  shows "\<exists>v. (Some k, step_label (prepare_version_map P V) k) \<in> set (prepare_version_map P V)
           \<and> step_label (prepare_version_map P V) k \<in> set (map fst V)
           \<and> string2version P (step_label (prepare_version_map P V) k) = Some v
           \<and> vkey v = vkey k \<and> k \<in> set (parsed P V)"
proof -
  from assms obtain L where L: "(Some k, L) \<in> set (prepare_version_map P V)"
    by (force simp: set_sorted_versions)
  have lab: "step_label (prepare_version_map P V) k = L"
    unfolding step_label_def using version_map_distinct L by (rule getitem_on_mem)
  from version_map_mem(2) [OF L] obtain v where v: "string2version P L = Some v" "vkey v = vkey k"
    by auto
  from version_map_mem(3) [OF L] have "k \<in> set (parsed P V)"
    by (force simp: set_parsed)
  with L lab v version_map_mem(1) [OF L] show ?thesis by simp
qed

lemma remove_dotx_aliases [simp]:
  "remove_dotx ''latest'' = ''latest''" "remove_dotx ''stable'' = ''stable''"
  by simp_all

lemma prepare_versions_parsed:
  assumes "V \<noteq> []" and "sorted_versions (prepare_version_map P V) \<noteq> []"
  shows "prepare_versions P V
     = fold (prepare_step V (prepare_version_map P V))
         (rev (sorted_versions (prepare_version_map P V)))
         [(''latest'', get_default V ''latest''
             (getitem V (step_label (prepare_version_map P V)
                (last (sorted_versions (prepare_version_map P V)))))),
          (''stable'', get_default V ''stable''
             (getitem V (step_label (prepare_version_map P V)
                (if filter final_release (sorted_versions (prepare_version_map P V)) \<noteq> []
                 then last (filter final_release (sorted_versions (prepare_version_map P V)))
                 else last (sorted_versions (prepare_version_map P V))))))]"
proof -
  have f: "(\<lambda>k. \<not> (is_prerelease k \<or> is_devrelease k)) = (final_release :: 'a version \<Rightarrow> bool)"
    by (rule ext) (simp add: final_release_def)
  have "prepare_versions P V
     = fold (prepare_step V (prepare_version_map P V))
         (rev (sorted_versions (prepare_version_map P V)))
         (setitem (setitem [] ''latest'' (get_default V ''latest''
             (getitem V (step_label (prepare_version_map P V)
                (last (sorted_versions (prepare_version_map P V)))))))
          ''stable'' (get_default V ''stable''
             (getitem V (step_label (prepare_version_map P V)
                (if filter final_release (sorted_versions (prepare_version_map P V)) \<noteq> []
                 then last (filter final_release (sorted_versions (prepare_version_map P V)))
                 else last (sorted_versions (prepare_version_map P V)))))))"
    using assms
    by (simp only: prepare_versions_def Let_def f step_label_def if_False if_True simp_thms)
  then show ?thesis by simp
qed

lemma coherent_parsed:
  assumes "coherent P V" and "v \<in> set (parsed P V)"
  shows "P (public v) \<noteq> None"
    and "w \<in> set (parsed P V) \<Longrightarrow> vkey w = vkey v \<Longrightarrow> final_release w = final_release v"
proof -
  have a: "\<forall>v \<in> set (parsed P V). P (public v) \<noteq> None
             \<and> (\<forall>w \<in> set (parsed P V). vkey w \<noteq> vkey v \<or> final_release w = final_release v)"
    using assms(1) unfolding coherent_def list_all_iff by (elim conjE)
  from a assms(2) show "P (public v) \<noteq> None" by blast
  from a assms(2) show "w \<in> set (parsed P V) \<Longrightarrow> vkey w = vkey v
      \<Longrightarrow> final_release w = final_release v"
    by blast
qed

lemma coherent_aliases:
  assumes "coherent P V"
  shows "P ''latest'' = None" and "P ''stable'' = None"
proof -
  from assms have a: "P ''latest'' = None \<and> P ''stable'' = None"
    unfolding coherent_def by (elim conjE) (rule conjI)
  from a show "P ''latest'' = None" by (rule conjunct1)
  from a show "P ''stable'' = None" by (rule conjunct2)
qed

lemma aliases_unwritten:
  assumes c: "coherent P V" and k: "k \<in> set (sorted_versions (prepare_version_map P V))"
  shows "''latest'' \<notin> set (step_keys (prepare_version_map P V) k)"
    and "''stable'' \<notin> set (step_keys (prepare_version_map P V) k)"
proof -
  from step_label_props [OF k] obtain v where
    v: "string2version P (step_label (prepare_version_map P V) k) = Some v"
    and kp: "k \<in> set (parsed P V)" by blast
  have P: "P ''latest'' = None" "P ''stable'' = None"
    using c by (rule coherent_aliases)+
  have pub: "P (public k) \<noteq> None" using c kp by (rule coherent_parsed)
  have rem: "P (remove_dotx (step_label (prepare_version_map P V) k)) = Some v"
    using v by (simp add: string2version_def)
  have ne: "s \<noteq> t" if "P s \<noteq> None" "P t = None" for s t
    using that by blast
  have 2: "remove_dotx (step_label (prepare_version_map P V) k) \<noteq> ''latest''"
    "remove_dotx (step_label (prepare_version_map P V) k) \<noteq> ''stable''"
    by (rule ne [of "remove_dotx (step_label (prepare_version_map P V) k)"], simp only: rem,
        simp, rule P)+
  have 1: "step_label (prepare_version_map P V) k \<noteq> ''latest''"
    "step_label (prepare_version_map P V) k \<noteq> ''stable''"
  proof -
    show "step_label (prepare_version_map P V) k \<noteq> ''latest''"
    proof
      assume e: "step_label (prepare_version_map P V) k = ''latest''"
      from 2(1) show False unfolding e by simp
    qed
    show "step_label (prepare_version_map P V) k \<noteq> ''stable''"
    proof
      assume e: "step_label (prepare_version_map P V) k = ''stable''"
      from 2(2) show False unfolding e by simp
    qed
  qed
  have 3: "public k \<noteq> ''latest''" "public k \<noteq> ''stable''"
    by (rule ne [OF pub], rule P)+
  have mem: "x \<notin> set (step_keys vm k)"
    if "step_label vm k \<noteq> x" "remove_dotx (step_label vm k) \<noteq> x" "public k \<noteq> x"
    for x and vm :: "('a version option \<times> string) list"
    using that by (auto simp: step_keys_def)
  show "''latest'' \<notin> set (step_keys (prepare_version_map P V) k)"
    using 1(1) 2(1) 3(1) by (rule mem)
  show "''stable'' \<notin> set (step_keys (prepare_version_map P V) k)"
    using 1(2) 2(2) 3(2) by (rule mem)
qed

lemma sorted_versions_cover:
  assumes "w \<in> set (parsed P V)"
  shows "\<exists>k \<in> set (sorted_versions (prepare_version_map P V)). vkey k = vkey w"
proof -
  from assms obtain L where "L \<in> set (map fst V)" "string2version P L = Some w"
    by (auto simp: set_parsed)
  from version_map_cover [OF this] obtain k L' where
    "(Some k, L') \<in> set (prepare_version_map P V)" "vkey k = vkey w" by blast
  then show ?thesis by (force simp: set_sorted_versions)
qed

lemma step_label_url:
  assumes d: "distinct (map fst V)"
    and k: "k \<in> set (sorted_versions (prepare_version_map P V))"
  shows "\<exists>v. (step_label (prepare_version_map P V) k,
               getitem V (step_label (prepare_version_map P V) k)) \<in> set V
           \<and> string2version P (step_label (prepare_version_map P V) k) = Some v
           \<and> vkey v = vkey k \<and> v \<in> set (parsed P V) \<and> k \<in> set (parsed P V)"
proof -
  let ?L = "step_label (prepare_version_map P V) k"
  from step_label_props [OF k] obtain v where
    L: "?L \<in> set (map fst V)" and v: "string2version P ?L = Some v" "vkey v = vkey k"
    and kp: "k \<in> set (parsed P V)" by blast
  from L obtain u where u: "(?L, u) \<in> set V" by force
  then have "map_of V ?L = Some u" using d by simp
  then have "getitem V ?L = u" by (simp add: getitem_def)
  moreover have "v \<in> set (parsed P V)" using L v(1) unfolding set_parsed by blast
  ultimately show ?thesis using u v kp by blast
qed

text \<open>
  C1, as stated, at a dictionary with an entry \<open>latest\<close> of its own and one version: the
  expansion keeps the dictionary's own \<open>latest\<close> (\<open>versions.get("latest", ...)\<close>), which is
  not the URL of the label with the maximum version, \<open>1.23\<close>.
\<close>

theorem prepare_versions_own_latest:
  "prepare_versions release_version
     [(''latest'', ''https://numpy.org/devdocs/''), (''1.23'', ''https://numpy.org/doc/1.23/'')]
   = [(''latest'', ''https://numpy.org/devdocs/''), (''stable'', ''https://numpy.org/doc/1.23/''),
      (''1.23'', ''https://numpy.org/doc/1.23/'')]
   \<and> release_version ''latest'' = None
   \<and> release_version ''1.23'' = Some (Version ([1, 23], 1, 0) ''1.23'' False False)"
  by code_simp

text \<open>
  C1, amended.  For every version dictionary (its keys distinct) with at least one label
  that parses, on whose labels the parser is coherent, there is a label whose version is
  maximal among the parsed labels such that \<open>latest\<close> of the expansion is the
  dictionary's own \<open>latest\<close> entry if it has one, and otherwise the URL of that label.
  \<open>stable\<close> is the dictionary's own \<open>stable\<close> entry if it has one; otherwise it is, when
  some parsed label is neither a pre-release nor a dev-release, the URL of a label whose
  version is maximal among those, and when there is none, the URL of the very label that
  \<open>latest\<close> falls back on.
\<close>

theorem prepare_versions_latest_stable:
  assumes d: "distinct (map fst V)" and c: "coherent P V" and p: "parsed P V \<noteq> []"
  shows "\<exists>L u v. (L, u) \<in> set V \<and> string2version P L = Some v
            \<and> (\<forall>w \<in> set (parsed P V). vkey w \<le> vkey v)
            \<and> map_of (prepare_versions P V) ''latest'' = Some (get_default V ''latest'' u)
            \<and> (if \<exists>w \<in> set (parsed P V). final_release w
               then \<exists>L' u' v'. (L', u') \<in> set V \<and> string2version P L' = Some v'
                      \<and> final_release v'
                      \<and> (\<forall>w \<in> set (parsed P V). final_release w \<longrightarrow> vkey w \<le> vkey v')
                      \<and> map_of (prepare_versions P V) ''stable''
                          = Some (get_default V ''stable'' u')
               else map_of (prepare_versions P V) ''stable''
                      = Some (get_default V ''stable'' u))"
proof -
  define vm where "vm = prepare_version_map P V"
  define SV where "SV = sorted_versions vm"
  define FV where "FV = filter final_release SV"
  define ks where "ks = (if FV \<noteq> [] then last FV else last SV)"
  from p obtain w0 where "w0 \<in> set (parsed P V)" by (cases "parsed P V") auto
  from sorted_versions_cover [OF this] have ne: "SV \<noteq> []"
    unfolding SV_def vm_def by auto
  have V: "V \<noteq> []" using p by (auto simp: parsed_def)
  have srt: "sorted (map vkey SV)" unfolding SV_def by (rule sorted_sorted_versions)
  have maxSV: "vkey k \<le> vkey (last SV)" if "k \<in> set SV" for k
    using srt that by (rule sorted_last_max)
  have cover: "\<exists>k \<in> set SV. vkey k = vkey w \<and> final_release k = final_release w"
    if w: "w \<in> set (parsed P V)" for w
  proof -
    from sorted_versions_cover [OF w] obtain k where k: "k \<in> set SV" "vkey k = vkey w"
      unfolding SV_def vm_def by blast
    from step_label_url [OF d k(1) [unfolded SV_def vm_def]] have "k \<in> set (parsed P V)" by blast
    from coherent_parsed(2) [OF c w this k(2)] k show ?thesis by auto
  qed
  have maxall: "\<forall>w \<in> set (parsed P V). vkey w \<le> vkey (last SV)"
  proof
    fix w assume "w \<in> set (parsed P V)"
    from cover [OF this] obtain k where "k \<in> set SV" "vkey k = vkey w" by blast
    with maxSV [of k] show "vkey w \<le> vkey (last SV)" by simp
  qed
  have eq: "prepare_versions P V
     = fold (prepare_step V vm) (rev SV)
         [(''latest'', get_default V ''latest'' (getitem V (step_label vm (last SV)))),
          (''stable'', get_default V ''stable'' (getitem V (step_label vm ks)))]"
    unfolding vm_def SV_def ks_def FV_def
    using V ne [unfolded SV_def vm_def] by (rule prepare_versions_parsed)
  have unw: "\<forall>k \<in> set (rev SV). ''latest'' \<notin> set (step_keys vm k)"
    "\<forall>k \<in> set (rev SV). ''stable'' \<notin> set (step_keys vm k)"
    using aliases_unwritten [OF c] unfolding SV_def vm_def by auto
  have latest: "map_of (prepare_versions P V) ''latest''
                  = Some (get_default V ''latest'' (getitem V (step_label vm (last SV))))"
    unfolding eq by (simp add: fold_step_unwritten [OF unw(1)])
  have stable: "map_of (prepare_versions P V) ''stable''
                  = Some (get_default V ''stable'' (getitem V (step_label vm ks)))"
    unfolding eq by (simp add: fold_step_unwritten [OF unw(2)])
  have last_in: "last SV \<in> set SV" using ne by simp
  from step_label_url [OF d last_in [unfolded SV_def vm_def]] obtain v where
    v: "(step_label vm (last SV), getitem V (step_label vm (last SV))) \<in> set V"
       "string2version P (step_label vm (last SV)) = Some v" "vkey v = vkey (last SV)"
    unfolding vm_def SV_def by blast
  have second: "if \<exists>w \<in> set (parsed P V). final_release w
      then \<exists>L' u' v'. (L', u') \<in> set V \<and> string2version P L' = Some v'
             \<and> final_release v'
             \<and> (\<forall>w \<in> set (parsed P V). final_release w \<longrightarrow> vkey w \<le> vkey v')
             \<and> map_of (prepare_versions P V) ''stable'' = Some (get_default V ''stable'' u')
      else map_of (prepare_versions P V) ''stable''
             = Some (get_default V ''stable'' (getitem V (step_label vm (last SV))))"
  proof (cases "FV = []")
    case True
    have none: "\<not> (\<exists>w \<in> set (parsed P V). final_release w)"
    proof
      assume "\<exists>w \<in> set (parsed P V). final_release w"
      then obtain w where w: "w \<in> set (parsed P V)" "final_release w" by blast
      from cover [OF w(1)] w(2) obtain k where "k \<in> set SV" "final_release k" by auto
      then have "k \<in> set FV" by (simp add: FV_def)
      with True show False by simp
    qed
    have ks: "ks = last SV" using True by (simp add: ks_def)
    show ?thesis
      using stable none unfolding ks by (simp only: if_False)
  next
    case False
    then have ks: "ks = last FV" by (simp add: ks_def)
    have ks_in: "ks \<in> set FV" using False by (simp add: ks)
    then have ks_SV: "ks \<in> set SV" and ks_final: "final_release ks"
      by (simp_all add: FV_def)
    have srtF: "sorted (map vkey FV)"
      unfolding FV_def using srt by (simp add: sorted_filter)
    have maxF: "vkey k \<le> vkey ks" if "k \<in> set FV" for k
      unfolding ks using srtF that by (rule sorted_last_max)
    from step_label_url [OF d ks_SV [unfolded SV_def vm_def]] obtain vs where
      vs: "(step_label vm ks, getitem V (step_label vm ks)) \<in> set V"
        "string2version P (step_label vm ks) = Some vs" "vkey vs = vkey ks"
        "vs \<in> set (parsed P V)" "ks \<in> set (parsed P V)"
      unfolding vm_def SV_def by blast
    have fin: "final_release vs"
      using coherent_parsed(2) [OF c vs(5) vs(4) vs(3)] ks_final by simp
    have ex: "\<exists>w \<in> set (parsed P V). final_release w"
      using vs(4) fin by blast
    have maxf: "\<forall>w \<in> set (parsed P V). final_release w \<longrightarrow> vkey w \<le> vkey vs"
    proof (intro ballI impI)
      fix w assume w: "w \<in> set (parsed P V)" "final_release w"
      from cover [OF w(1)] w(2) obtain k where k: "k \<in> set SV" "vkey k = vkey w" "final_release k"
        by auto
      then have "k \<in> set FV" by (simp add: FV_def)
      from maxF [OF this] show "vkey w \<le> vkey vs" using k(2) vs(3) by simp
    qed
    have "\<exists>L' u' v'. (L', u') \<in> set V \<and> string2version P L' = Some v'
             \<and> final_release v'
             \<and> (\<forall>w \<in> set (parsed P V). final_release w \<longrightarrow> vkey w \<le> vkey v')
             \<and> map_of (prepare_versions P V) ''stable'' = Some (get_default V ''stable'' u')"
      using vs(1,2) fin maxf stable
      by (intro exI [of _ "step_label vm ks"]
        exI [of _ "getitem V (step_label vm ks)"] exI [of _ vs]) simp
    then show ?thesis using ex by (simp only: if_True)
  qed
  show ?thesis
    using v(1,2) maxall latest second
    by (intro exI [of _ "step_label vm (last SV)"]
      exI [of _ "getitem V (step_label vm (last SV))"] exI [of _ v]) (simp only: v(3) simp_thms)
qed


theorem prepare_versions_latest_stable_witness:
  "distinct (map fst [(''1.0'', ''A''), (''2.0rc1'', ''B''), (''v0.9.x'', ''C'')])
   \<and> coherent release_version [(''1.0'', ''A''), (''2.0rc1'', ''B''), (''v0.9.x'', ''C'')]
   \<and> parsed release_version [(''1.0'', ''A''), (''2.0rc1'', ''B''), (''v0.9.x'', ''C'')] \<noteq> []
   \<and> (\<exists>L u v. (L, u) \<in> set [(''1.0'', ''A''), (''2.0rc1'', ''B''), (''v0.9.x'', ''C'')]
         \<and> string2version release_version L = Some v
         \<and> map_of (prepare_versions release_version
               [(''1.0'', ''A''), (''2.0rc1'', ''B''), (''v0.9.x'', ''C'')]) ''latest''
             = Some (get_default [(''1.0'', ''A''), (''2.0rc1'', ''B''), (''v0.9.x'', ''C'')]
                       ''latest'' u))
   \<and> map_of (prepare_versions release_version
         [(''1.0'', ''A''), (''2.0rc1'', ''B''), (''v0.9.x'', ''C'')]) ''latest'' = Some ''B''
   \<and> map_of (prepare_versions release_version
         [(''1.0'', ''A''), (''2.0rc1'', ''B''), (''v0.9.x'', ''C'')]) ''stable'' = Some ''A''"
proof -
  let ?V = "[(''1.0'', ''A''), (''2.0rc1'', ''B''), (''v0.9.x'', ''C'')]"
  have d: "distinct (map fst ?V)" by simp
  have c: "coherent release_version ?V" by code_simp
  have p: "parsed release_version ?V \<noteq> []" by code_simp
  have l: "map_of (prepare_versions release_version ?V) ''latest'' = Some ''B''" by code_simp
  have s: "map_of (prepare_versions release_version ?V) ''stable'' = Some ''A''" by code_simp
  from prepare_versions_latest_stable [OF d c p]
  have "\<exists>L u v. (L, u) \<in> set ?V \<and> string2version release_version L = Some v
         \<and> map_of (prepare_versions release_version ?V) ''latest''
             = Some (get_default ?V ''latest'' u)"
    by blast
  with d c p l s show ?thesis by blast
qed

section \<open>The synonyms of the expansion\<close>

lemma remove_dotx_id: "\<not> contains_dotx s \<Longrightarrow> remove_dotx s = s"
  by (induction s rule: remove_dotx.induct) auto

lemma parsed_distinct_labels:
  assumes "distinct (map g (concat (map (\<lambda>L. case f L of Some v \<Rightarrow> [v] | None \<Rightarrow> []) ks)))"
    and "L \<in> set ks" and "L' \<in> set ks" and "f L = Some v" and "f L' = Some v'"
    and "g v = g v'" and "distinct ks"
  shows "L = L'"
  using assms
proof (induction ks)
  case Nil
  then show ?case by simp
next
  case (Cons a ks)
  have mem: "w \<in> set (concat (map (\<lambda>L. case f L of Some v \<Rightarrow> [v] | None \<Rightarrow> []) ks))"
    if "M \<in> set ks" "f M = Some w" for M w
    using that by force
  show ?case
  proof (cases "L = a")
    case True
    show ?thesis
    proof (cases "L' = a")
      case True
      with \<open>L = a\<close> show ?thesis by simp
    next
      case False
      then have "L' \<in> set ks" using Cons.prems(3) by simp
      from mem [OF this Cons.prems(5)] Cons.prems(1,4,6) True
      show ?thesis by (force simp: image_iff)
    qed
  next
    case False
    then have L: "L \<in> set ks" using Cons.prems(2) by simp
    show ?thesis
    proof (cases "L' = a")
      case True
      from mem [OF L Cons.prems(4)] Cons.prems(1,5,6) True
      show ?thesis by (force simp: image_iff)
    next
      case False
      then have "L' \<in> set ks" using Cons.prems(3) by simp
      moreover have "distinct (map g (concat (map (\<lambda>L. case f L of Some v \<Rightarrow> [v] | None \<Rightarrow> []) ks)))"
        using Cons.prems(1) by simp
      ultimately show ?thesis using L Cons.prems(4,5,6,7) by (intro Cons.IH) auto
    qed
  qed
qed

lemma plain_facts:
  assumes "plain_releases P V"
  shows "P ''latest'' = None" and "P ''stable'' = None"
    and "distinct (map vkey (parsed P V))"
    and "v \<in> set (parsed P V) \<Longrightarrow> \<exists>w. P (public v) = Some w \<and> vkey w = vkey v"
    and "L \<in> set (map fst V) \<Longrightarrow> contains_dotx L \<Longrightarrow> string2version P L \<noteq> None \<Longrightarrow> P L = None"
proof -
  from assms have a: "P ''latest'' = None" and b: "P ''stable'' = None"
    and c: "distinct (map vkey (parsed P V))"
    and e: "list_all (\<lambda>v. case P (public v) of None \<Rightarrow> False | Some w \<Rightarrow> vkey w = vkey v)
              (parsed P V)"
    and f: "list_all (\<lambda>L. \<not> (contains_dotx L \<and> string2version P L \<noteq> None \<and> P L \<noteq> None))
              (map fst V)"
    unfolding plain_releases_def by blast+
  show "P ''latest'' = None" "P ''stable'' = None" "distinct (map vkey (parsed P V))"
    by (rule a b c)+
  show "v \<in> set (parsed P V) \<Longrightarrow> \<exists>w. P (public v) = Some w \<and> vkey w = vkey v"
    using e unfolding list_all_iff by (force split: option.splits)
  show "L \<in> set (map fst V) \<Longrightarrow> contains_dotx L \<Longrightarrow> string2version P L \<noteq> None \<Longrightarrow> P L = None"
    using f unfolding list_all_iff by blast
qed

lemma plain_coherent_public:
  assumes "plain_releases P V" and "v \<in> set (parsed P V)"
  shows "P (public v) \<noteq> None"
  using plain_facts(4) [OF assms] by auto

lemma prepare_versions_unparsed:
  assumes "V \<noteq> []" and "sorted_versions (prepare_version_map P V) = []"
  shows "\<exists>a b. prepare_versions P V = setitem (setitem [] ''latest'' a) ''stable'' b"
  using assms
  by (simp only: prepare_versions_def Let_def if_False if_True not_True_eq_False simp_thms) blast

lemma prepare_versions_aliases_present:
  assumes "V \<noteq> []"
  shows "map_of (prepare_versions P V) ''latest'' \<noteq> None"
    and "map_of (prepare_versions P V) ''stable'' \<noteq> None"
proof -
  have "''latest'' \<in> fst ` set (prepare_versions P V) \<and> ''stable'' \<in> fst ` set (prepare_versions P V)"
  proof (cases "sorted_versions (prepare_version_map P V) = []")
    case True
    from prepare_versions_unparsed [OF assms True] obtain a b where
      "prepare_versions P V = setitem (setitem [] ''latest'' a) ''stable'' b" by blast
    then show ?thesis by (simp add: keys_setitem)
  next
    case False
    show ?thesis
      unfolding prepare_versions_parsed [OF assms False]
      by (intro conjI fold_step_keys) simp_all
  qed
  then show "map_of (prepare_versions P V) ''latest'' \<noteq> None"
    and "map_of (prepare_versions P V) ''stable'' \<noteq> None"
    by (simp_all add: map_of_eq_None_iff)
qed

lemma distinct_class_entry:
  assumes "distinct (map (\<lambda>x. h (fst x)) m)" and "(a, b) \<in> set m" and "(a', b') \<in> set m"
    and "h a = h a'"
  shows "a = a' \<and> b = b'"
proof -
  from assms(1) have "inj_on (\<lambda>x. h (fst x)) (set m)" by (simp add: distinct_map)
  from inj_onD [OF this, of "(a, b)" "(a', b')"] assms(2,3,4) show ?thesis by simp
qed

lemma plain_entry:
  assumes d: "distinct (map fst V)" and pl: "plain_releases P V"
    and L: "L \<in> set (map fst V)" and v: "string2version P L = Some v"
  shows "(Some v, L) \<in> set (prepare_version_map P V)"
proof -
  have uniq: "\<forall>L' \<in> set (map fst V).
      map_option vkey (string2version P L') = map_option vkey (string2version P L) \<longrightarrow> L' = L"
  proof (intro ballI impI)
    fix L' assume L': "L' \<in> set (map fst V)"
      and e: "map_option vkey (string2version P L') = map_option vkey (string2version P L)"
    from e v obtain v' where v': "string2version P L' = Some v'" "vkey v' = vkey v" by auto
    from plain_facts(3) [OF pl] have "distinct (map vkey (concat (map
        (\<lambda>L. case string2version P L of Some v \<Rightarrow> [v] | None \<Rightarrow> []) (map fst V))))"
      by (simp only: parsed_def)
    from parsed_distinct_labels [OF this L' L v'(1) v v'(2) d] show "L' = L" .
  qed
  have "(string2version P L, L)
          \<in> set (fold (\<lambda>k m. setitem_on (map_option vkey) m (string2version P k) k) (map fst V) [])"
    using L uniq _ d by (rule fold_setitem_on_unique) simp
  then show ?thesis by (simp only: prepare_version_map_def v)
qed

lemma plain_sorted_versions:
  assumes d: "distinct (map fst V)" and pl: "plain_releases P V"
    and k: "k \<in> set (sorted_versions (prepare_version_map P V))"
  shows "step_label (prepare_version_map P V) k \<in> set (map fst V)
       \<and> string2version P (step_label (prepare_version_map P V) k) = Some k"
proof -
  let ?L = "step_label (prepare_version_map P V) k"
  from step_label_props [OF k] obtain v where
    m: "(Some k, ?L) \<in> set (prepare_version_map P V)" and L: "?L \<in> set (map fst V)"
    and v: "string2version P ?L = Some v" "vkey v = vkey k" by blast
  from plain_entry [OF d pl L v(1)] have "(Some v, ?L) \<in> set (prepare_version_map P V)" .
  from distinct_class_entry [OF version_map_distinct this m] v(2) have "v = k" by simp
  with L v(1) show ?thesis by simp
qed

lemma key_class:
  assumes pl: "plain_releases P V" and L: "L \<in> set (map fst V)"
    and v: "string2version P L = Some v"
    and x: "x \<in> set (L # (if contains_dotx L then [remove_dotx L]
                          else if public v \<noteq> L then [public v] else []))"
  shows "(x = L \<and> contains_dotx L \<and> P x = None) \<or> (\<exists>w. P x = Some w \<and> vkey w = vkey v)"
proof -
  have rem: "P (remove_dotx L) = Some v" using v by (simp add: string2version_def)
  have vp: "v \<in> set (parsed P V)" using L v unfolding set_parsed by blast
  from x consider "x = L" | "contains_dotx L" "x = remove_dotx L" | "x = public v"
    by (auto split: if_splits)
  then show ?thesis
  proof cases
    case 1
    show ?thesis
    proof (cases "contains_dotx L")
      case True
      from plain_facts(5) [OF pl L True] v have "P L = None" by simp
      with 1 True show ?thesis by simp
    next
      case False
      then have "P L = Some v" using rem by (simp add: remove_dotx_id)
      with 1 show ?thesis by simp
    qed
  next
    case 2
    with rem show ?thesis by simp
  next
    case 3
    with plain_facts(4) [OF pl vp] show ?thesis by simp
  qed
qed

lemma one_writer:
  assumes d: "distinct (map fst V)" and pl: "plain_releases P V"
    and L: "L \<in> set (map fst V)" "string2version P L = Some v"
    and L': "L' \<in> set (map fst V)" "string2version P L' = Some v'"
    and x: "x \<in> set (L # (if contains_dotx L then [remove_dotx L]
                          else if public v \<noteq> L then [public v] else []))"
    and x': "x \<in> set (L' # (if contains_dotx L' then [remove_dotx L']
                          else if public v' \<noteq> L' then [public v'] else []))"
  shows "L' = L"
proof -
  from key_class [OF pl L x] key_class [OF pl L' x']
  consider "x = L" "x = L'" | w where "P x = Some w" "vkey w = vkey v" "vkey w = vkey v'"
    by auto
  then show ?thesis
  proof cases
    case 1
    then show ?thesis by simp
  next
    case 2
    from plain_facts(3) [OF pl] have "distinct (map vkey (concat (map
        (\<lambda>L. case string2version P L of Some v \<Rightarrow> [v] | None \<Rightarrow> []) (map fst V))))"
      by (simp only: parsed_def)
    from parsed_distinct_labels [OF this L'(1) L(1) L'(2) L(2) _ d] 2 show ?thesis by simp
  qed
qed

lemma plain_written:
  assumes d: "distinct (map fst V)" and pl: "plain_releases P V"
    and Lu: "(L, u) \<in> set V" and v: "string2version P L = Some v"
    and x: "x \<in> set (L # (if contains_dotx L then [remove_dotx L]
                          else if public v \<noteq> L then [public v] else []))"
  shows "map_of (prepare_versions P V) x = Some u"
proof -
  define vm where "vm = prepare_version_map P V"
  define SV where "SV = sorted_versions vm"
  have L: "L \<in> set (map fst V)" using Lu by force
  have V: "V \<noteq> []" using Lu by auto
  have u: "getitem V L = u" using Lu d by (simp add: getitem_def)
  have entry: "(Some v, L) \<in> set vm"
    unfolding vm_def using d pl L v by (rule plain_entry)
  then have vSV: "v \<in> set SV" unfolding SV_def by (force simp: set_sorted_versions)
  then have ne: "SV \<noteq> []" by auto
  have lab: "step_label vm v = L"
    unfolding step_label_def vm_def
    using version_map_distinct entry [unfolded vm_def] by (rule getitem_on_mem)
  have keys: "step_keys vm k = step_label vm k #
      (if contains_dotx (step_label vm k) then [remove_dotx (step_label vm k)]
       else if public k \<noteq> step_label vm k then [public k] else [])" for k
    by (simp only: step_keys_def)
  have xv: "x \<in> set (step_keys vm v)"
    using x by (simp only: keys lab)
  have agree: "\<forall>k' \<in> set (rev SV). x \<in> set (step_keys vm k') \<longrightarrow> getitem V (step_label vm k') = u"
  proof (intro ballI impI)
    fix k' assume k': "k' \<in> set (rev SV)" and xk: "x \<in> set (step_keys vm k')"
    from k' have "k' \<in> set (sorted_versions (prepare_version_map P V))"
      by (simp add: SV_def vm_def)
    from plain_sorted_versions [OF d pl this]
    have L': "step_label vm k' \<in> set (map fst V)" "string2version P (step_label vm k') = Some k'"
      by (simp_all add: vm_def)
    have "x \<in> set (step_label vm k' #
      (if contains_dotx (step_label vm k') then [remove_dotx (step_label vm k')]
       else if public k' \<noteq> step_label vm k' then [public k'] else []))"
      using xk by (simp only: keys)
    from one_writer [OF d pl L v L' x this] have "step_label vm k' = L" .
    then show "getitem V (step_label vm k') = u" by (simp only: u)
  qed
  have "map_of (fold (prepare_step V vm) (rev SV) r) x = Some u" for r
    using _ xv agree by (rule fold_step_written) (simp add: vSV)
  then show ?thesis
    unfolding prepare_versions_parsed [OF V ne [unfolded SV_def vm_def]] vm_def SV_def .
qed

text \<open>
  A label that does not parse, other than \<open>latest\<close> and \<open>stable\<close>, is not a key of the
  expansion: here \<open>devdocs\<close> of the numpy dictionary.  The theorems of this section say
  nothing about such labels.
\<close>

lemma prepare_versions_drops_alias:
  "prepare_versions release_version
     [(''stable'', ''https://numpy.org/doc/stable/''), (''devdocs'', ''https://numpy.org/devdocs/'')]
   = [(''latest'', ''https://numpy.org/doc/stable/''), (''stable'', ''https://numpy.org/doc/stable/'')]
   \<and> map_of (prepare_versions release_version
         [(''stable'', ''https://numpy.org/doc/stable/''),
          (''devdocs'', ''https://numpy.org/devdocs/'')]) ''devdocs'' = None"
  by code_simp

text \<open>
  C3, as stated, at the empty dictionary: the guard \<open>if not versions: return versions\<close>
  hands it back as it is, and neither \<open>latest\<close> nor \<open>stable\<close> is a key of the expansion.
\<close>

theorem prepare_versions_empty_without_aliases:
  "''latest'' \<notin> fst ` set (prepare_versions release_version [])
   \<and> ''stable'' \<notin> fst ` set (prepare_versions release_version [])"
  by (simp add: prepare_versions_def)

text \<open>
  C3, amended.  For every version dictionary that is not empty, the expansion has the
  keys \<open>latest\<close> and \<open>stable\<close>.  When moreover \<open>plain_releases\<close> holds (the labels that parse
  are pairwise different versions, each the version of its own public string, and no
  label that contains \<open>.x\<close> is a version as it stands), then for every label that parses
  the expansion maps the label to its URL, and to the same URL the label without \<open>.x\<close> if
  it contains \<open>.x\<close>, or else its public (canonical) string if that differs from the label.
\<close>

theorem prepare_versions_synonyms:
  assumes d: "distinct (map fst V)" and ne: "V \<noteq> []"
  shows "map_of (prepare_versions P V) ''latest'' \<noteq> None
       \<and> map_of (prepare_versions P V) ''stable'' \<noteq> None
       \<and> (plain_releases P V \<longrightarrow>
            (\<forall>(L, u) \<in> set V. \<forall>v. string2version P L = Some v \<longrightarrow>
               map_of (prepare_versions P V) L = Some u
             \<and> (contains_dotx L \<longrightarrow> map_of (prepare_versions P V) (remove_dotx L) = Some u)
             \<and> (\<not> contains_dotx L \<and> public v \<noteq> L \<longrightarrow>
                  map_of (prepare_versions P V) (public v) = Some u)))"
proof (intro conjI impI)
  show "map_of (prepare_versions P V) ''latest'' \<noteq> None"
    using ne by (rule prepare_versions_aliases_present)
  show "map_of (prepare_versions P V) ''stable'' \<noteq> None"
    using ne by (rule prepare_versions_aliases_present)
  assume pl: "plain_releases P V"
  show "\<forall>(L, u) \<in> set V. \<forall>v. string2version P L = Some v \<longrightarrow>
            map_of (prepare_versions P V) L = Some u
          \<and> (contains_dotx L \<longrightarrow> map_of (prepare_versions P V) (remove_dotx L) = Some u)
          \<and> (\<not> contains_dotx L \<and> public v \<noteq> L \<longrightarrow>
               map_of (prepare_versions P V) (public v) = Some u)"
  proof (rule ballI)
    fix p assume p: "p \<in> set V"
    obtain L u where Lu: "p = (L, u)" by (cases p)
    have mem: "(L, u) \<in> set V" using p by (simp only: Lu)
    have "\<forall>v. string2version P L = Some v \<longrightarrow>
            map_of (prepare_versions P V) L = Some u
          \<and> (contains_dotx L \<longrightarrow> map_of (prepare_versions P V) (remove_dotx L) = Some u)
          \<and> (\<not> contains_dotx L \<and> public v \<noteq> L \<longrightarrow>
               map_of (prepare_versions P V) (public v) = Some u)"
    proof (intro allI impI conjI)
      fix v assume v: "string2version P L = Some v"
      show "map_of (prepare_versions P V) L = Some u"
        using d pl mem v by (rule plain_written) simp
    next
      fix v assume v: "string2version P L = Some v" and x: "contains_dotx L"
      show "map_of (prepare_versions P V) (remove_dotx L) = Some u"
        using d pl mem v by (rule plain_written) (simp add: x)
    next
      fix v assume v: "string2version P L = Some v"
        and x: "\<not> contains_dotx L \<and> public v \<noteq> L"
      show "map_of (prepare_versions P V) (public v) = Some u"
        using d pl mem v by (rule plain_written) (simp add: x)
    qed
    then show "case p of (L, u) \<Rightarrow> \<forall>v. string2version P L = Some v \<longrightarrow>
            map_of (prepare_versions P V) L = Some u
          \<and> (contains_dotx L \<longrightarrow> map_of (prepare_versions P V) (remove_dotx L) = Some u)
          \<and> (\<not> contains_dotx L \<and> public v \<noteq> L \<longrightarrow>
               map_of (prepare_versions P V) (public v) = Some u)"
      by (simp only: Lu prod.case)
  qed
qed

theorem prepare_versions_synonyms_witness:
  "distinct (map fst [(''1.0'', ''A''), (''2.0rc1'', ''B''), (''v0.9.x'', ''C''), (''v3.0'', ''D'')])
   \<and> plain_releases release_version
        [(''1.0'', ''A''), (''2.0rc1'', ''B''), (''v0.9.x'', ''C''), (''v3.0'', ''D'')]
   \<and> map_of (prepare_versions release_version
        [(''1.0'', ''A''), (''2.0rc1'', ''B''), (''v0.9.x'', ''C''), (''v3.0'', ''D'')]) ''v0.9.x''
       = Some ''C''
   \<and> map_of (prepare_versions release_version
        [(''1.0'', ''A''), (''2.0rc1'', ''B''), (''v0.9.x'', ''C''), (''v3.0'', ''D'')]) ''v0.9''
       = Some ''C''
   \<and> map_of (prepare_versions release_version
        [(''1.0'', ''A''), (''2.0rc1'', ''B''), (''v0.9.x'', ''C''), (''v3.0'', ''D'')]) ''v3.0''
       = Some ''D''
   \<and> map_of (prepare_versions release_version
        [(''1.0'', ''A''), (''2.0rc1'', ''B''), (''v0.9.x'', ''C''), (''v3.0'', ''D'')]) ''3.0''
       = Some ''D''"
proof -
  let ?V = "[(''1.0'', ''A''), (''2.0rc1'', ''B''), (''v0.9.x'', ''C''), (''v3.0'', ''D'')]"
  have d: "distinct (map fst ?V)" by simp
  have pl: "plain_releases release_version ?V" by code_simp
  have ne: "?V \<noteq> []" by simp
  have x: "string2version release_version ''v0.9.x''
             = Some (Version ([0, 9], 1, 0) ''0.9'' False False)"
    and y: "string2version release_version ''v3.0''
             = Some (Version ([3], 1, 0) ''3.0'' False False)"
    by code_simp+
  have cx: "contains_dotx ''v0.9.x''" and cy: "\<not> contains_dotx ''v3.0''"
    and rx: "remove_dotx ''v0.9.x'' = ''v0.9''"
    by simp_all
  from prepare_versions_synonyms [OF d ne, of release_version]
  have "plain_releases release_version ?V \<longrightarrow>
          (\<forall>(L, u) \<in> set ?V. \<forall>v. string2version release_version L = Some v \<longrightarrow>
            map_of (prepare_versions release_version ?V) L = Some u
          \<and> (contains_dotx L \<longrightarrow> map_of (prepare_versions release_version ?V) (remove_dotx L) = Some u)
          \<and> (\<not> contains_dotx L \<and> public v \<noteq> L \<longrightarrow>
               map_of (prepare_versions release_version ?V) (public v) = Some u))"
    by (elim conjE)
  from this pl
  have b: "\<forall>(L, u) \<in> set ?V. \<forall>v. string2version release_version L = Some v \<longrightarrow>
            map_of (prepare_versions release_version ?V) L = Some u
          \<and> (contains_dotx L \<longrightarrow> map_of (prepare_versions release_version ?V) (remove_dotx L) = Some u)
          \<and> (\<not> contains_dotx L \<and> public v \<noteq> L \<longrightarrow>
               map_of (prepare_versions release_version ?V) (public v) = Some u)"
    by (rule mp)
  have mx: "(''v0.9.x'', ''C'') \<in> set ?V" and my: "(''v3.0'', ''D'') \<in> set ?V" by simp_all
  from bspec [OF b mx] x cx rx
  have 1: "map_of (prepare_versions release_version ?V) ''v0.9.x'' = Some ''C''"
    and 2: "map_of (prepare_versions release_version ?V) ''v0.9'' = Some ''C''"
    by simp_all
  from bspec [OF b my] y cy
  have 3: "map_of (prepare_versions release_version ?V) ''v3.0'' = Some ''D''"
    and 4: "map_of (prepare_versions release_version ?V) ''3.0'' = Some ''D''"
    by simp_all
  from d pl 1 2 3 4 show ?thesis by blast
qed

section \<open>Updates never drop a version\<close>

lemma map_of_modify:
  "map_of (modify k f d) k' = (if k' = k then map_option f (map_of d k) else map_of d k')"
  by (induction d) auto

lemma map_of_setdefault:
  "map_of (setdefault d k v) k' = (if k' = k \<and> map_of d k = None then Some v else map_of d k')"
  by (simp add: setdefault_def map_of_setitem)

lemma entry_of_ensure_defaults:
  "entry_of (ensure_defaults c pkg) p key
     = (if p = pkg \<and> (key = ''versions'' \<or> key = ''sources'')
        then Some (case entry_of c pkg key of Some d \<Rightarrow> d | None \<Rightarrow> [])
        else entry_of c p key)"
  by (simp add: entry_of_def ensure_defaults_def map_of_modify map_of_setdefault
           split: option.splits)

lemma labels_ensure_defaults: "labels (ensure_defaults c pkg) p = labels c p"
  by (simp add: labels_def entry_of_ensure_defaults split: option.splits)

lemma ensure_defaults_present:
  assumes "entry_of c pkg ''versions'' \<noteq> None" and "entry_of c pkg ''sources'' \<noteq> None"
  shows "ensure_defaults c pkg = c"
proof -
  from assms obtain info where info: "map_of c pkg = Some info"
    and v: "map_of info ''versions'' \<noteq> None" and s: "map_of info ''sources'' \<noteq> None"
    by (auto simp: entry_of_def split: option.splits)
  have same: "modify pkg f c = c" if "f info = info" for f
    using info that by (induction c) (auto split: if_splits)
  have "setdefault (setdefault info ''versions'' []) ''sources'' [] = info"
    using v s by (auto simp: setdefault_def)
  then have "modify pkg (\<lambda>info. setdefault (setdefault info ''versions'' []) ''sources'' []) c = c"
    by (rule same)
  moreover have "setdefault c pkg [(''versions'', []), (''sources'', [])] = c"
    using info by (auto simp: setdefault_def)
  ultimately show ?thesis by (simp only: ensure_defaults_def)
qed

lemma entry_of_modify_versions:
  "entry_of (modify pkg (modify ''versions'' f) c) p key
     = (if p = pkg \<and> key = ''versions'' then map_option f (entry_of c p key) else entry_of c p key)"
  by (auto simp: entry_of_def map_of_modify split: option.splits)

lemma entry_of_modify_sources:
  "entry_of (modify pkg (modify ''sources'' f) c) p key
     = (if p = pkg \<and> key = ''sources'' then map_option f (entry_of c p key) else entry_of c p key)"
  by (auto simp: entry_of_def map_of_modify split: option.splits)

lemma update_versions_from_labels:
  "labels c p \<subseteq> labels (fst (snd (update_versions_from P source fetch (c, lg) pkg name))) p"
proof (cases "fetch (name_or name pkg) = []")
  case True
  then show ?thesis
    by (simp add: update_versions_from_def Let_def labels_ensure_defaults)
next
  case False
  have "labels (ensure_defaults c pkg) p
          \<subseteq> labels (modify pkg (modify ''sources'' (\<lambda>s. setitem s source (name_or name pkg)))
               (modify pkg (modify ''versions'' (reorder_versions P))
                 (modify pkg (modify ''versions'' (\<lambda>vs. update vs (fetch (name_or name pkg))))
                    (ensure_defaults c pkg)))) p"
    by (auto simp: labels_def entry_of_modify_versions entry_of_modify_sources
                   reorder_keys keys_update split: option.splits)
  then show ?thesis using False
    by (simp add: update_versions_from_def Let_def labels_ensure_defaults)
qed

lemma update_versions_from_soft_fail:
  assumes "fetch (name_or name pkg) = []"
  shows "update_versions_from P source fetch (c, lg) pkg name
           = (False, ensure_defaults c pkg,
              lg @ [(DEBUG, Checking source pkg (name_or name pkg)),
                    (DEBUG, Found_urls source pkg 0)])"
  using assms by (simp add: update_versions_from_def Let_def)

text \<open>
  C10.  For every catalog \<open>c\<close>, log, package and name, and each of the three update
  methods: every version label that any package \<open>p\<close> has before the call it has
  afterwards; and when the fetcher answers with the empty dictionary, the method returns
  \<open>False\<close>, logs its two debug records and leaves the catalog as \<open>_ensure_defaults\<close> made
  it: the \<open>versions\<close> and \<open>sources\<close> of the package are the ones it had, or empty
  dictionaries where it had none, every other entry is untouched, and a catalog that
  had both for the package is unchanged.
\<close>

theorem update_keeps_known_versions:
  "labels c p \<subseteq> labels (fst (snd (update_versions_from_environment F (c, lg) pkg name))) p
   \<and> labels c p \<subseteq> labels (fst (snd (update_versions_from_rtd F (c, lg) pkg name))) p
   \<and> labels c p \<subseteq> labels (fst (snd (update_versions_from_pypi F (c, lg) pkg name m))) p
   \<and> (docurls_from_environment F (name_or name pkg) = [] \<longrightarrow>
        update_versions_from_environment F (c, lg) pkg name
          = (False, ensure_defaults c pkg,
             lg @ [(DEBUG, Checking ''environment'' pkg (name_or name pkg)),
                   (DEBUG, Found_urls ''environment'' pkg 0)]))
   \<and> (docurls_from_rtd F (name_or name pkg) = [] \<longrightarrow>
        update_versions_from_rtd F (c, lg) pkg name
          = (False, ensure_defaults c pkg,
             lg @ [(DEBUG, Checking ''readthedocs'' pkg (name_or name pkg)),
                   (DEBUG, Found_urls ''readthedocs'' pkg 0)]))
   \<and> (docurls_from_pypi F (name_or name pkg) m = [] \<longrightarrow>
        update_versions_from_pypi F (c, lg) pkg name m
          = (False, ensure_defaults c pkg,
             lg @ [(DEBUG, Checking ''pypi'' pkg (name_or name pkg)),
                   (DEBUG, Found_urls ''pypi'' pkg 0)]))
   \<and> entry_of (ensure_defaults c pkg) p key
        = (if p = pkg \<and> (key = ''versions'' \<or> key = ''sources'')
           then Some (case entry_of c pkg key of Some d \<Rightarrow> d | None \<Rightarrow> [])
           else entry_of c p key)
   \<and> (entry_of c pkg ''versions'' \<noteq> None \<and> entry_of c pkg ''sources'' \<noteq> None \<longrightarrow>
        ensure_defaults c pkg = c)"
  unfolding update_versions_from_environment_def update_versions_from_rtd_def
    update_versions_from_pypi_def
  by (intro conjI impI update_versions_from_labels update_versions_from_soft_fail
        entry_of_ensure_defaults ensure_defaults_present) simp_all

theorem update_keeps_known_versions_witness:
  "docurls_from_environment offline (name_or None ''numpy'') = []
   \<and> docurls_from_rtd offline (name_or None ''numpy'') = []
   \<and> docurls_from_pypi offline (name_or None ''numpy'') 0 = []
   \<and> entry_of numpy_dev ''numpy'' ''versions'' \<noteq> None
   \<and> entry_of numpy_dev ''numpy'' ''sources'' \<noteq> None
   \<and> update_versions_from_rtd offline (numpy_dev, []) ''numpy'' None
       = (False, numpy_dev,
          [(DEBUG, Checking ''readthedocs'' ''numpy'' ''numpy''),
           (DEBUG, Found_urls ''readthedocs'' ''numpy'' 0)])"
proof -
  have f: "docurls_from_environment offline (name_or None ''numpy'') = []"
    "docurls_from_rtd offline (name_or None ''numpy'') = []"
    "docurls_from_pypi offline (name_or None ''numpy'') 0 = []"
    by (simp_all add: offline_def)
  have e: "entry_of numpy_dev ''numpy'' ''versions'' \<noteq> None"
    "entry_of numpy_dev ''numpy'' ''sources'' \<noteq> None"
    by (simp_all add: entry_of_def numpy_dev_def)
  have n: "name_or None ''numpy'' = ''numpy''" by (simp add: name_or_def)
  from update_keeps_known_versions [of numpy_dev "''numpy''" offline "[]" "''numpy''" None 0]
  have "update_versions_from_rtd offline (numpy_dev, []) ''numpy'' None
          = (False, ensure_defaults numpy_dev ''numpy'',
             [] @ [(DEBUG, Checking ''readthedocs'' ''numpy'' (name_or None ''numpy'')),
                   (DEBUG, Found_urls ''readthedocs'' ''numpy'' 0)])"
    and "ensure_defaults numpy_dev ''numpy'' = numpy_dev"
    using f e by blast+
  then show ?thesis using f e n by simp
qed

section \<open>Self-update looks up the recorded sources\<close>

lemma self_update_names_value:
  assumes "\<forall>(pkg, info) \<in> set c. map_of info ''sources'' \<noteq> None"
  shows "self_update_names c [(''environment'', d1), (''readthedocs'', d2), (''pypi'', d3)]
      = Inr [(''environment'', update d1 (map (\<lambda>(pkg, info).
                (pkg, map_of (get_default info ''sources'' []) ''environment'')) c)),
             (''readthedocs'', update d2 (map (\<lambda>(pkg, info).
                (pkg, map_of (get_default info ''sources'' []) ''readthedocs'')) c)),
             (''pypi'', update d3 (map (\<lambda>(pkg, info).
                (pkg, map_of (get_default info ''sources'' []) ''pypi'')) c))]"
  using assms
proof (induction c arbitrary: d1 d2 d3)
  case Nil
  then show ?case by simp
next
  case (Cons x c)
  obtain pkg info where x: "x = (pkg, info)" by (cases x)
  from Cons.prems obtain S where S: "map_of info ''sources'' = Some S"
    by (auto simp: x)
  have rest: "\<forall>(pkg, info) \<in> set c. map_of info ''sources'' \<noteq> None"
    using Cons.prems by simp
  show ?case
    by (simp add: x S Cons.IH [OF rest] update_def get_default_def)
qed

lemma map_of_recorded:
  assumes "distinct (map fst c)" and "(pkg, info) \<in> set c"
  shows "map_of (update [] (map (\<lambda>(pkg, info). (pkg, g info)) c)) pkg = Some (g info)"
proof -
  let ?e = "map (\<lambda>(pkg, info). (pkg, g info)) c"
  have keys: "map fst ?e = map fst c" by (induction c) auto
  have d: "distinct (map fst ?e)" using assms(1) by (simp only: keys)
  have "(pkg, g info) \<in> set ?e" using assms(2) by force
  then have "map_of ?e pkg = Some (g info)" using d by simp
  then show ?thesis by (simp add: map_of_update map_of_rev_distinct [OF d])
qed

lemma lookup_name_recorded:
  assumes "distinct (map fst c)" and "(pkg, info) \<in> set c"
    and "source = ''environment'' \<or> source = ''readthedocs'' \<or> source = ''pypi''"
  shows "lookup_name (recorded_names c) source pkg
           = map_of (get_default info ''sources'' []) source"
proof -
  have m: "map_of (update [] (map (\<lambda>(pkg, info). (pkg, g info)) c)) pkg = Some (g info)"
    for g :: "package \<Rightarrow> string option"
    by (rule map_of_recorded [OF assms(1,2)])
  from assms(3) consider "source = ''environment''" | "source = ''readthedocs''" | "source = ''pypi''"
    by blast
  then show ?thesis
  proof cases
    case 1
    show ?thesis unfolding 1 by (simp add: lookup_name_def recorded_names_def get_default_def m)
  next
    case 2
    show ?thesis unfolding 2 by (simp add: lookup_name_def recorded_names_def get_default_def m)
  next
    case 3
    show ?thesis unfolding 3 by (simp add: lookup_name_def recorded_names_def get_default_def m)
  qed
qed

lemma update_actions_refresh:
  assumes "\<forall>source \<in> set order.
             (source = ''environment'' \<or> source = ''readthedocs'' \<or> source = ''pypi'')
             \<and> lookup_name N source pkg = map_of S source"
  shows "update_actions F N 0 False pkg order st = Inr (refresh_known F pkg S order st)"
  using assms
proof (induction order arbitrary: st)
  case Nil
  then show ?case by simp
next
  case (Cons source order)
  have rest: "\<forall>source \<in> set order.
             (source = ''environment'' \<or> source = ''readthedocs'' \<or> source = ''pypi'')
             \<and> lookup_name N source pkg = map_of S source"
    using Cons.prems by simp
  have src: "source = ''environment'' \<or> source = ''readthedocs'' \<or> source = ''pypi''"
    and name: "lookup_name N source pkg = map_of S source"
    using Cons.prems by simp_all
  have act: "update_action F N 0 pkg source st
               = (case map_of S source of
                    None \<Rightarrow> Inr (False, st)
                  | Some name \<Rightarrow> Inr (update_from_source F source st pkg (Some name)))"
  proof -
    from src consider "source = ''environment''" | "source = ''readthedocs''" | "source = ''pypi''"
      by blast
    then show ?thesis
    proof cases
      case 1
      show ?thesis using name unfolding 1 by (simp add: update_action_def update_from_source_def split: option.splits)
    next
      case 2
      show ?thesis using name unfolding 2 by (simp add: update_action_def update_from_source_def split: option.splits)
    next
      case 3
      show ?thesis using name unfolding 3 by (simp add: update_action_def update_from_source_def split: option.splits)
    qed
  qed
  show ?case
    by (simp add: act Cons.IH [OF rest] split: option.splits prod.splits)
qed

lemma update_versions_refresh:
  assumes "distinct (map fst c)" and "set ps \<subseteq> set c"
  shows "update_versions F (map fst ps) [''environment'', ''readthedocs'', ''pypi'']
           (recorded_names c) 0 False st
         = Inr (fold (\<lambda>(pkg, info) st. refresh_known F pkg (get_default info ''sources'' [])
                        [''environment'', ''readthedocs'', ''pypi''] st) ps st)"
  using assms(2)
proof (induction ps arbitrary: st)
  case Nil
  then show ?case by simp
next
  case (Cons x ps)
  obtain pkg info where x: "x = (pkg, info)" by (cases x)
  have mem: "(pkg, info) \<in> set c" and rest: "set ps \<subseteq> set c"
    using Cons.prems by (simp_all add: x)
  have "update_actions F (recorded_names c) 0 False pkg
          [''environment'', ''readthedocs'', ''pypi''] st
        = Inr (refresh_known F pkg (get_default info ''sources'' [])
                 [''environment'', ''readthedocs'', ''pypi''] st)"
    by (rule update_actions_refresh)
       (simp add: lookup_name_recorded [OF assms(1) mem])
  then show ?case
    by (simp add: x Cons.IH [OF rest])
qed

text \<open>
  C4, as stated, at a catalog whose package has no source recorded, with fetchers that
  would find documentation for every name at every source: \<open>self_update\<close> returns the
  catalog as it was and logs nothing; no source is attempted under the package's own
  name, since \<open>info["sources"].get(src)\<close> is \<open>None\<close> for a source that is not recorded,
  and \<open>update_versions\<close> skips a name that is \<open>None\<close>.
\<close>

theorem self_update_skips_unrecorded:
  "self_update everywhere
     ([(''click'', [(''versions'', [(''8.1.x'', ''https://click.palletsprojects.com/en/8.1.x/'')]),
                    (''sources'', [])])], [])
   = Inr ([(''click'', [(''versions'', [(''8.1.x'', ''https://click.palletsprojects.com/en/8.1.x/'')]),
                        (''sources'', [])])], [])
   \<and> docurls_from_rtd everywhere ''click''
       = [(''stable'', ''https://click.readthedocs.io/en/stable/'')]"
  by code_simp

text \<open>
  C4, amended.  For every catalog (a dictionary, so its keys are distinct) whose entries
  all have \<open>sources\<close>, \<open>self_update\<close> does not raise and does what \<open>refresh_all\<close> says: for
  every package, and for environment, readthedocs and pypi in this order, the update
  method of a source is called exactly when a name is recorded for it, with that name;
  a source without a recorded name is skipped, and the first source that finds versions
  ends the round of the package.
\<close>

theorem self_update_known_sources:
  assumes "distinct (map fst c)"
    and "\<forall>(pkg, info) \<in> set c. map_of info ''sources'' \<noteq> None"
  shows "self_update F (c, lg) = Inr (refresh_all F c (c, lg))"
proof -
  have "self_update_names c [(''environment'', []), (''readthedocs'', []), (''pypi'', [])]
          = Inr (recorded_names c)"
    unfolding recorded_names_def using assms(2) by (rule self_update_names_value)
  then show ?thesis
    using update_versions_refresh [OF assms(1) subset_refl]
    by (simp add: self_update_def refresh_all_def)
qed

theorem self_update_known_sources_witness:
  "distinct (map fst [(''packaging'',
        [(''versions'', [(''21.3'', ''https://packaging.pypa.io/en/21.3/'')]),
         (''sources'', [(''readthedocs'', ''packaging'')])])])
   \<and> map_of [(''versions'', [(''21.3'', ''https://packaging.pypa.io/en/21.3/'')]),
              (''sources'', [(''readthedocs'', ''packaging'')])] ''sources'' \<noteq> None
   \<and> self_update everywhere
        ([(''packaging'',
            [(''versions'', [(''21.3'', ''https://packaging.pypa.io/en/21.3/'')]),
             (''sources'', [(''readthedocs'', ''packaging'')])])], [])
       = Inr ([(''packaging'',
                 [(''versions'', [(''stable'', ''https://packaging.readthedocs.io/en/stable/''),
                                  (''21.3'', ''https://packaging.pypa.io/en/21.3/'')]),
                  (''sources'', [(''readthedocs'', ''packaging'')])])],
              [(DEBUG, Checking ''readthedocs'' ''packaging'' ''packaging''),
               (DEBUG, Found_urls ''readthedocs'' ''packaging'' 1)])"
proof -
  let ?c = "[(''packaging'',
        [(''versions'', [(''21.3'', ''https://packaging.pypa.io/en/21.3/'')]),
         (''sources'', [(''readthedocs'', ''packaging'')])])]"
  have d: "distinct (map fst ?c)" by simp
  have s: "\<forall>(pkg, info) \<in> set ?c. map_of info ''sources'' \<noteq> None" by simp
  have r: "refresh_all everywhere ?c (?c, [])
             = ([(''packaging'',
                 [(''versions'', [(''stable'', ''https://packaging.readthedocs.io/en/stable/''),
                                  (''21.3'', ''https://packaging.pypa.io/en/21.3/'')]),
                  (''sources'', [(''readthedocs'', ''packaging'')])])],
              [(DEBUG, Checking ''readthedocs'' ''packaging'' ''packaging''),
               (DEBUG, Found_urls ''readthedocs'' ''packaging'' 1)])"
    by code_simp
  show ?thesis
    using self_update_known_sources [OF d s, of everywhere "[]"] r by simp
qed

section \<open>The lookup view: a name known only as an alias\<close>

text \<open>
  C2.  \<open>LookupCatalog.get\<close> is to resolve a source alias to the canonical package and
  to return the default, without raising, whenever the package or the version is not
  found.  The view over the catalog \<open>pillow\<close> knows \<open>PIL\<close> as an alias of \<open>pillow\<close>, and it
  has the version \<open>1.0\<close>; yet \<open>get("PIL", "1.0")\<close> raises \<open>KeyError\<close>, because the test
  \<open>version not in self._version_map[pkg]\<close> indexes with the alias, where the \<open>return\<close>
  statement after it indexes with \<open>self._package_map[pkg]\<close>.
\<close>

theorem get_alias_raises:
  "(case reset release_version pillow of
      Inl e \<Rightarrow> Inl e
    | Inr lk \<Rightarrow> get lk ''PIL'' (Some ''1.0'') ()) = Inl (KeyError ''PIL'')"
  by code_simp

section \<open>Registering a documentation index\<close>

lemma inventory_url_prefix: "take (length addr) (inventory_url addr i) = addr"
  by (simp add: inventory_url_def)

text \<open>
  C8, as stated, at a mapping that already holds numpy with the same URL and an
  inventory file of its own: registering the identical URL, with the default inventory
  file, is reported at error level as a reset that is ignored, not at info level.
\<close>

theorem add_index_same_url_other_inventory:
  "add_index [(''numpy'', (''https://numpy.org/doc/stable/'', Some ''numpy.inv''))]
      ''numpy'' ''https://numpy.org/doc/stable/'' None
   = ([(''numpy'', (''https://numpy.org/doc/stable/'', Some ''numpy.inv''))],
      [(ERROR, Ignoring_reset ''numpy'' ''https://numpy.org/doc/stable/numpy.inv''
                 ''https://numpy.org/doc/stable/objects.inv'')])"
  by (simp add: add_index_def inventory_url_def endswith_slash_def)

text \<open>
  C8, amended.  In a mapping where \<open>name\<close> is registered with the URL \<open>A\<close> and the
  inventory file \<open>i\<close>: registering \<open>name\<close> with another URL \<open>B\<close> (and any inventory file),
  or with \<open>A\<close> and another inventory file, leaves the mapping as it is and logs exactly
  one record, at error level, that carries the inventory address of the current entry
  and that of the new one (each starts with its URL); registering \<open>A\<close> with the same
  inventory file leaves the mapping as it is and logs exactly one record, at info
  level.  \<open>add_index\<close> is a total function: no case raises.
\<close>

theorem add_index_registered:
  assumes "map_of m name = Some (A, i)"
  shows "(B \<noteq> A \<longrightarrow>
            add_index m name B j
              = (m, [(ERROR, Ignoring_reset name (inventory_url A i) (inventory_url B j))]))
       \<and> (j \<noteq> i \<longrightarrow>
            add_index m name A j
              = (m, [(ERROR, Ignoring_reset name (inventory_url A i) (inventory_url A j))]))
       \<and> add_index m name A i = (m, [(INFO, Ignoring_repeated name)])
       \<and> take (length A) (inventory_url A i) = A
       \<and> take (length B) (inventory_url B j) = B"
  using assms by (simp add: add_index_def inventory_url_prefix)

theorem add_index_registered_witness:
  "map_of [(''numpy'', (''https://numpy.org/doc/stable/'', None))] ''numpy''
     = Some (''https://numpy.org/doc/stable/'', None)
   \<and> add_index [(''numpy'', (''https://numpy.org/doc/stable/'', None))] ''numpy''
       ''https://numpy.org/devdocs/'' None
     = ([(''numpy'', (''https://numpy.org/doc/stable/'', None))],
        [(ERROR, Ignoring_reset ''numpy'' ''https://numpy.org/doc/stable/objects.inv''
                   ''https://numpy.org/devdocs/objects.inv'')])
   \<and> add_index [(''numpy'', (''https://numpy.org/doc/stable/'', None))] ''numpy''
       ''https://numpy.org/doc/stable/'' None
     = ([(''numpy'', (''https://numpy.org/doc/stable/'', None))],
        [(INFO, Ignoring_repeated ''numpy'')])"
proof -
  have h: "map_of [(''numpy'', (''https://numpy.org/doc/stable/'', None :: string option))] ''numpy''
     = Some (''https://numpy.org/doc/stable/'', None)" by simp
  have ne: "''https://numpy.org/devdocs/'' \<noteq> ''https://numpy.org/doc/stable/''" by simp
  show ?thesis
    using add_index_registered [OF h, of "''https://numpy.org/devdocs/''" None] ne
    by (simp add: inventory_url_def endswith_slash_def)
qed

section \<open>The driver stops at the user catalog\<close>

text \<open>
  C7, as stated, where numpy is already in the intersphinx mapping with another URL:
  the version resolves in the view over the user catalog, and the mapping afterwards
  still holds the earlier URL; the URL of the user catalog is not recorded, an error is
  logged instead.
\<close>

theorem resolve_keeps_first_registration:
  "resolve offline [] \<lparr>version_map = [], package_map = []\<rparr>
     \<lparr>mapping = [(''numpy'', (''https://numpy.org/doc/stable/'', None))],
      user_catalog = numpy_dev, user_lookup = numpy_dev_lookup, messages = []\<rparr>
     (''numpy'', Some ''stable'')
   = Inr \<lparr>mapping = [(''numpy'', (''https://numpy.org/doc/stable/'', None))],
          user_catalog = numpy_dev, user_lookup = numpy_dev_lookup,
          messages = [(ERROR, Ignoring_reset ''numpy'' ''https://numpy.org/doc/stable/objects.inv''
                                ''https://numpy.org/devdocs/objects.inv'')]\<rparr>"
  by code_simp

text \<open>
  C7, amended.  When the requested version resolves in the view over the user catalog,
  the driver hands the URL of the user catalog to \<open>_add_index\<close> and goes on to the next
  package.  The state it goes on with is \<open>registered s p addr\<close>, whatever the fetchers,
  the built-in catalog and its view are: none of them is consulted.  The user catalog
  and its view are unchanged, the mapping and the new log records are those of
  \<open>_add_index\<close> (no fetch is logged), and a package that was not in the mapping is now
  bound to the URL of the user catalog.
\<close>

theorem resolve_user_hit:
  assumes "get (user_lookup s) p v () = Inr (Url addr)"
  shows "resolve F builtin_catalog builtin_lookup s (p, v) = Inr (registered s p addr)
       \<and> populate F builtin_catalog builtin_lookup ((p, v) # ks) s
           = populate F builtin_catalog builtin_lookup ks (registered s p addr)
       \<and> user_catalog (registered s p addr) = user_catalog s
       \<and> user_lookup (registered s p addr) = user_lookup s
       \<and> (mapping (registered s p addr),
            drop (length (messages s)) (messages (registered s p addr)))
           = add_index (mapping s) p addr None
       \<and> (map_of (mapping s) p = None \<longrightarrow>
            map_of (mapping (registered s p addr)) p = Some (addr, None)
            \<and> messages (registered s p addr) = messages s)"
  using assms
  by (auto simp: resolve_def registered_def add_index_def map_of_setitem
           split: prod.splits option.splits)

theorem resolve_user_hit_witness:
  "get numpy_dev_lookup ''numpy'' (Some ''stable'') () = Inr (Url ''https://numpy.org/devdocs/'')
   \<and> resolve offline [(''numpy'', [(''versions'', [(''stable'', ''https://numpy.org/doc/stable/'')]),
                                    (''sources'', [])])]
         \<lparr>version_map = [(''numpy'', [(''latest'', ''https://numpy.org/doc/stable/''),
                                       (''stable'', ''https://numpy.org/doc/stable/'')])],
          package_map = [(''numpy'', ''numpy'')]\<rparr>
         \<lparr>mapping = [], user_catalog = numpy_dev, user_lookup = numpy_dev_lookup, messages = []\<rparr>
         (''numpy'', Some ''stable'')
       = Inr \<lparr>mapping = [(''numpy'', (''https://numpy.org/devdocs/'', None))],
              user_catalog = numpy_dev, user_lookup = numpy_dev_lookup, messages = []\<rparr>"
proof -
  have h: "get (user_lookup \<lparr>mapping = [], user_catalog = numpy_dev,
                              user_lookup = numpy_dev_lookup, messages = []\<rparr>)
             ''numpy'' (Some ''stable'') () = Inr (Url ''https://numpy.org/devdocs/'')"
    by code_simp
  have r: "registered \<lparr>mapping = [], user_catalog = numpy_dev,
                        user_lookup = numpy_dev_lookup, messages = []\<rparr>
             ''numpy'' ''https://numpy.org/devdocs/''
           = \<lparr>mapping = [(''numpy'', (''https://numpy.org/devdocs/'', None))],
              user_catalog = numpy_dev, user_lookup = numpy_dev_lookup, messages = []\<rparr>"
    by code_simp
  have g: "get numpy_dev_lookup ''numpy'' (Some ''stable'') ()
             = Inr (Url ''https://numpy.org/devdocs/'')"
    using h by simp
  show ?thesis
    by (simp add: resolve_user_hit [OF h, THEN conjunct1] g r)
qed

section \<open>A saved catalog loads back\<close>

text \<open>Reading a string: every character comes back from its escape.\<close>

lemma hex_value_hex_digit: "d < 16 \<Longrightarrow> hex_value (hex_digit d) = Some d"
proof -
  assume "d < 16"
  then have "d \<in> set [0..<16]" by simp
  then show ?thesis
    unfolding hex_digit_def hex_value_def
    by (simp add: upt_rec numeral_eq_Suc) (elim disjE; simp)
qed

lemma decode_uXXXX_hex:
  assumes "a < 16" and "b < 16"
  shows "decode_uXXXX (CHR ''0'' # CHR ''0'' # hex_digit a # hex_digit b # r) = Some (a * 16 + b)"
proof -
  have z: "hex_value CHR ''0'' = Some 0" by (simp add: hex_value_def)
  show ?thesis
    by (simp add: decode_uXXXX_def z hex_value_hex_digit assms)
qed

lemma scanstring_escape_char:
  assumes "scanstring r = Inr (t, r')"
  shows "scanstring (escape_char c @ r) = Inr (c # t, r')"
proof -
  let ?n = "of_char c :: nat"
  have lt: "?n < 256" by (rule nat_of_char_less_256)
  then have d: "?n div 16 < 16" "?n mod 16 < 16" by (simp_all add: less_mult_imp_div_less)
  have u: "decode_uXXXX (CHR ''0'' # CHR ''0'' # hex_digit (?n div 16) # hex_digit (?n mod 16) # r) = Some ?n"
    using decode_uXXXX_hex [OF d] by simp
  show ?thesis
    unfolding escape_char_def
    by (simp add: assms unescape_def u lt)
qed

lemma scanstring_escape:
  "scanstring (concat (map escape_char s) @ CHR 0x22 # r) = Inr (s, r)"
  by (induction s) (simp_all add: scanstring_escape_char)

lemma scan_once_string:
  "scan_once (Suc n) (encode_string s @ r) = Inr (JString s, r)"
  by (simp add: encode_string_def scanstring_escape)

lemma skip_ws_Cons:
  "skip_ws (c # r) =
     (if c = CHR '' '' \<or> c = CHR 0x09 \<or> c = CHR 0x0A \<or> c = CHR 0x0D then skip_ws r
      else c # r)"
  by (simp add: skip_ws_def)

lemma skip_ws_spaces: "skip_ws (replicate n CHR '' '' @ r) = skip_ws r"
  by (induction n) (simp_all add: skip_ws_Cons)

lemma skip_ws_newline_indent: "skip_ws (newline_indent level @ r) = skip_ws r"
  by (simp add: newline_indent_def skip_ws_Cons skip_ws_spaces)

lemma update_distinct: "distinct (map fst e) \<Longrightarrow> update [] e = e"
  using update_new [of e "[]"] by simp

lemma dumps_value_head:
  "\<exists>c t. dumps_value level v = c # t \<and> (c = CHR 0x22 \<or> c = CHR ''{'')"
  by (cases v) (simp_all add: encode_string_def)

lemma skip_ws_dumps_value: "skip_ws (dumps_value level v @ r) = dumps_value level v @ r"
  using dumps_value_head [of level v] by (auto simp: skip_ws_Cons)

lemma scan_round_trip:
  "\<forall>n r. fuel v \<le> n \<longrightarrow> unique_keys v \<longrightarrow>
     scan_once n (dumps_value level v @ r) = Inr (v, r)"
  "\<forall>n r pairs outer. ms \<noteq> [] \<longrightarrow> fuel_members ms \<le> n \<longrightarrow> unique_keys_members ms \<longrightarrow>
     distinct (map fst (pairs @ ms)) \<longrightarrow>
     scan_members n (tl (dumps_members level ms) @ newline_indent outer @ CHR ''}'' # r) pairs
       = Inr (JObject (pairs @ ms), r)"
proof (induction level v and level ms rule: dumps_value_dumps_members.induct)
  case (1 level s)
  show ?case
  proof (intro allI impI)
    fix n r assume "fuel (JString s) \<le> n"
    then obtain m where "n = Suc m" by (cases n) simp_all
    then show "scan_once n (dumps_value level (JString s) @ r) = Inr (JString s, r)"
      by (simp only: dumps_value.simps scan_once_string)
  qed
next
  case (2 level ms)
  show ?case
  proof (intro allI impI)
    fix n r assume f: "fuel (JObject ms) \<le> n" and u: "unique_keys (JObject ms)"
    from f obtain m where n: "n = Suc m" and m: "fuel_members ms \<le> m" by (cases n) simp_all
    show "scan_once n (dumps_value level (JObject ms) @ r) = Inr (JObject ms, r)"
    proof (cases "ms = []")
      case True
      then show ?thesis by (simp add: n skip_ws_Cons)
    next
      case False
      then obtain k v ms' where ms: "ms = (k, v) # ms'" by (cases ms) auto
      have h: "dumps_members (Suc level) ms = CHR 0x22 # tl (dumps_members (Suc level) ms)"
        by (simp add: ms encode_string_def)
      have "scan_members m (tl (dumps_members (Suc level) ms) @ newline_indent level @ CHR ''}'' # r) []
              = Inr (JObject ([] @ ms), r)"
        using 2 False m u by simp
      then show ?thesis
        using False
        apply (simp add: n skip_ws_newline_indent)
        apply (subst h)
        apply (simp add: skip_ws_Cons)
        done
    qed
  qed
next
  case (3 level)
  show ?case by simp
next
  case (4 level k v ms)
  show ?case
  proof (intro allI impI)
    fix n r pairs outer
    assume f: "fuel_members ((k, v) # ms) \<le> n"
      and u: "unique_keys_members ((k, v) # ms)"
      and d: "distinct (map fst (pairs @ (k, v) # ms))"
    from f obtain m where n: "n = Suc m" and mv: "fuel v \<le> m" and mm: "fuel_members ms \<le> m"
      by (cases n) simp_all
    from u have uv: "unique_keys v" and um: "unique_keys_members ms" by simp_all
    have v: "\<And>r. scan_once m (dumps_value level v @ r) = Inr (v, r)"
      using 4(1) mv uv by simp
    let ?rest = "newline_indent outer @ CHR ''}'' # r"
    show "scan_members n (tl (dumps_members level ((k, v) # ms)) @ ?rest) pairs
            = Inr (JObject (pairs @ (k, v) # ms), r)"
    proof (cases "ms = []")
      case True
      have "update [] (pairs @ [(k, v)]) = pairs @ [(k, v)]"
        using d True by (intro update_distinct) simp
      then show ?thesis
        using True
        by (simp add: n encode_string_def scanstring_escape skip_ws_dumps_value v
              skip_ws_newline_indent skip_ws_Cons)
    next
      case False
      then obtain k' v' ms' where ms: "ms = (k', v') # ms'" by (cases ms) auto
      have h: "dumps_members level ms = CHR 0x22 # tl (dumps_members level ms)"
        by (simp add: ms encode_string_def)
      have d': "distinct (map fst ((pairs @ [(k, v)]) @ ms))" using d by simp
      have "scan_members m (tl (dumps_members level ms) @ ?rest) (pairs @ [(k, v)])
              = Inr (JObject ((pairs @ [(k, v)]) @ ms), r)"
        using 4(2) False mm um d' by blast
      then show ?thesis
        using False
        apply (simp add: n encode_string_def scanstring_escape skip_ws_dumps_value v
              skip_ws_newline_indent skip_ws_Cons)
        apply (subst h)
        apply (simp add: skip_ws_Cons)
        done
    qed
  qed
qed


lemma fuel_length:
  "fuel v \<le> length (dumps_value level v)"
  "fuel_members ms \<le> length (dumps_members level ms)"
proof (induction level v and level ms rule: dumps_value_dumps_members.induct)
  case (1 level s)
  show ?case by (simp add: encode_string_def)
next
  case (2 level ms)
  then show ?case by (cases "ms = []") simp_all
next
  case (3 level)
  show ?case by simp
next
  case (4 level k v ms)
  then show ?case by (cases "ms = []") (simp_all add: encode_string_def)
qed

lemma json_loads_dumps:
  assumes "unique_keys v"
  shows "json_loads (json_dumps v) = Inr v"
proof -
  have "fuel v \<le> Suc (length (dumps_value 0 v))"
    using fuel_length(1) [of v 0] by simp
  then have "scan_once (Suc (length (dumps_value 0 v))) (dumps_value 0 v @ []) = Inr (v, [])"
    using scan_round_trip(1) [of v 0] assms by blast
  then show ?thesis
    using skip_ws_dumps_value [of 0 v "[]"]
    by (simp add: json_loads_def json_dumps_def skip_ws_def)
qed

lemma typed_map:
  assumes "\<And>a. g (f a) = Some a"
  shows "typed g (map (\<lambda>(k, a). (k, f a)) d) = Some d"
  by (induction d) (auto simp: assms)

lemma dict_of_json_of:
  assumes "\<And>a. g (f a) = Some a"
  shows "dict_of g (json_of f d) = Some d"
  by (simp add: dict_of_def json_of_def typed_map [of g f, OF assms])

lemma json_catalog_catalog_json: "json_catalog (catalog_json c) = Some c"
  unfolding json_catalog_def catalog_json_def
  by (intro dict_of_json_of) simp

lemma unique_keys_members_map:
  "unique_keys_members (map (\<lambda>(k, a). (k, f a)) d) = list_all (\<lambda>(k, a). unique_keys (f a)) d"
  by (induction d) auto

lemma unique_keys_json_of:
  "unique_keys (json_of f d) =
     (distinct (map fst d) \<and> list_all (\<lambda>(k, a). unique_keys (f a)) d)"
proof -
  have "map fst (map (\<lambda>(k, a). (k, f a)) d) = map fst d" by (induction d) auto
  then show ?thesis by (simp only: json_of_def unique_keys.simps unique_keys_members_map)
qed

lemma unique_keys_catalog: "dictionaries c \<Longrightarrow> unique_keys (catalog_json c)"
  by (simp add: dictionaries_def catalog_json_def unique_keys_json_of case_prod_unfold
        list_all_iff)

lemma scanstring_shorter: "scanstring s = Inr (t, r) \<Longrightarrow> length r < length s"
proof (induction s arbitrary: t rule: scanstring.induct)
  case 1
  then show ?case by simp
next
  case (2 c s)
  show ?case
  proof (cases "c = CHR 0x22")
    case True
    then show ?thesis using 2(4) by simp
  next
    case q: False
    show ?thesis
    proof (cases "c = CHR 0x5C")
      case False
      then show ?thesis
        using q 2(3) 2(4) by (fastforce split: if_splits sum.splits)
    next
      case True
      show ?thesis
      proof (cases s)
        case Nil
        then show ?thesis using q True 2(4) by simp
      next
        case (Cons e s')
        show ?thesis
        proof (cases "e = CHR ''u''")
          case u: True
          then obtain n t' where "decode_uXXXX s' = Some n" "n < 256"
            "scanstring (drop 4 s') = Inr (t', r)"
            using q True Cons 2(4) by (auto split: option.splits if_splits sum.splits)
          then have "length r < length (drop 4 s')"
            using 2(1) q True Cons u by blast
          then show ?thesis by (simp add: Cons)
        next
          case False
          then obtain ch t' where "unescape e = Some ch" "scanstring s' = Inr (t', r)"
            using q True Cons 2(4) by (auto split: option.splits if_splits sum.splits)
          then have "length r < length s'"
            using 2(2) q True Cons False by blast
          then show ?thesis by (simp add: Cons)
        qed
      qed
    qed
  qed
qed

lemma skip_ws_length: "length (skip_ws s) \<le> length s"
  by (simp add: skip_ws_def length_dropWhile_le)

lemma skip_ws_Cons_length: "skip_ws s = c # r \<Longrightarrow> length r < length s"
  using skip_ws_length [of s] by simp

lemma scan_shorter:
  "scan_once n s = Inr (v, r) \<Longrightarrow> length r < length s"
  "scan_members n s pairs = Inr (v, r) \<Longrightarrow> length r < length s"
proof (induction n s and n s pairs arbitrary: v r and v r rule: scan_once_scan_members.induct)
  case (1 s)
  then show ?case by simp
next
  case (2 n)
  then show ?case by simp
next
  case (3 n c s)
  show ?case
  proof (cases "c = CHR 0x22")
    case True
    then obtain t where "scanstring s = Inr (t, r)"
      using 3(2) by (auto split: sum.splits)
    then show ?thesis using scanstring_shorter by fastforce
  next
    case q: False
    then have b: "c = CHR ''{''" using 3(2) by (auto split: if_splits)
    then obtain d r0 where s: "skip_ws s = d # r0"
      using 3(2) by (auto split: list.splits)
    have l: "length r0 < length s" using s by (rule skip_ws_Cons_length)
    show ?thesis
    proof (cases "d = CHR ''}''")
      case True
      then show ?thesis using 3(2) b s l by simp
    next
      case False
      then have dq: "d = CHR 0x22" and m: "scan_members n r0 [] = Inr (v, r)"
        using 3(2) b s by (auto split: if_splits)
      have "length r < length r0" using 3(1) [OF q b s False dq m] .
      then show ?thesis using l by simp
    qed
  qed
next
  case (4 s pairs)
  then show ?case by simp
next
  case (5 n s pairs)
  from 5(3) obtain key r0 where k: "scanstring s = Inr (key, r0)"
    by (auto split: sum.splits)
  from 5(3) k obtain colon r1 where c: "skip_ws r0 = colon # r1"
    by (auto split: list.splits)
  from 5(3) k c have cc: "\<not> colon \<noteq> CHR '':''" by (auto split: if_splits)
  from 5(3) k c cc obtain v1 r2 where o: "scan_once n (skip_ws r1) = Inr (v1, r2)"
    by (auto split: sum.splits)
  from 5(3) k c cc o obtain d r3 where e: "skip_ws r2 = d # r3"
    by (auto split: list.splits)
  have l0: "length r0 < length s" using k by (rule scanstring_shorter)
  have l1: "length r1 < length r0" using c by (rule skip_ws_Cons_length)
  have "length r2 < length (skip_ws r1)"
    using 5(1) [OF k refl c cc o] .
  then have l2: "length r2 < length r1" using skip_ws_length [of r1] by simp
  have l3: "length r3 < length r2" using e by (rule skip_ws_Cons_length)
  show ?case
  proof (cases "d = CHR ''}''")
    case True
    then have "r = r3" using 5(3) k c cc o e by simp
    then show ?thesis using l0 l1 l2 l3 by simp
  next
    case False
    then have dc: "d = CHR '',''" using 5(3) k c cc o e by (auto split: if_splits)
    then obtain q r4 where f: "skip_ws r3 = q # r4"
      using 5(3) k c cc o e False by (auto split: list.splits)
    then have qq: "q = CHR 0x22"
      and m: "scan_members n r4 (pairs @ [(key, v1)]) = Inr (v, r)"
      using 5(3) k c cc o e False dc by (auto split: if_splits)
    have l4: "length r4 < length r3" using f by (rule skip_ws_Cons_length)
    have "length r < length r4"
      using 5(2) [OF k refl c cc o refl e False dc f qq m] .
    then show ?thesis using l0 l1 l2 l3 l4 by simp
  qed
qed


lemma scanstring_not_exhausted: "scanstring s \<noteq> Inl Exhausted"
proof (induction s rule: scanstring.induct)
  case 1
  show ?case by simp
next
  case (2 c s)
  show ?case
  proof
    assume x: "scanstring (c # s) = Inl Exhausted"
    then have q: "c \<noteq> CHR 0x22" by auto
    show False
    proof (cases "c = CHR 0x5C")
      case False
      then have "\<not> (of_char c :: nat) < 32" using x q by (auto split: if_splits)
      moreover from this have "scanstring s = Inl Exhausted"
        using x q False by (auto split: sum.splits)
      ultimately show False using 2(3) q False by simp
    next
      case True
      then obtain e s' where Cons: "s = e # s'" using x q by (cases s) auto
      show False
      proof (cases "e = CHR ''u''")
        case u: True
        then obtain n where n: "decode_uXXXX s' = Some n" "n < 256"
          using x q True Cons by (auto split: option.splits if_splits)
        then have "scanstring (drop 4 s') = Inl Exhausted"
          using x q True Cons u by (auto split: sum.splits)
        then show False using 2(1) [OF q True Cons u n] by simp
      next
        case False
        then obtain ch where ch: "unescape e = Some ch"
          using x q True Cons by (auto split: option.splits)
        then have "scanstring s' = Inl Exhausted"
          using x q True Cons False by (auto split: sum.splits)
        then show False using 2(2) [OF q True Cons False ch] by simp
      qed
    qed
  qed
qed

lemma scan_not_exhausted:
  "length s < n \<Longrightarrow> scan_once n s \<noteq> Inl Exhausted"
  "length s < n \<Longrightarrow> scan_members n s pairs \<noteq> Inl Exhausted"
proof (induction n s and n s pairs rule: scan_once_scan_members.induct)
  case (1 s)
  then show ?case by simp
next
  case (2 n)
  then show ?case by simp
next
  case (3 n c s)
  show ?case
  proof
    assume x: "scan_once (Suc n) (c # s) = Inl Exhausted"
    have q: "c \<noteq> CHR 0x22"
      using x scanstring_not_exhausted [of s] by (auto split: sum.splits)
    then have b: "c = CHR ''{''" using x by (auto split: if_splits)
    then obtain d r0 where s: "skip_ws s = d # r0"
      using x q by (auto split: list.splits)
    have d: "d \<noteq> CHR ''}''" using x q b s by auto
    then have dq: "d = CHR 0x22" and m: "scan_members n r0 [] = Inl Exhausted"
      using x q b s by (auto split: if_splits)
    have "length r0 < n" using skip_ws_Cons_length [OF s] 3(2) by simp
    then show False using 3(1) [OF q b s d dq] m by simp
  qed
next
  case (4 s pairs)
  then show ?case by simp
next
  case (5 n s pairs)
  show ?case
  proof
    assume x: "scan_members (Suc n) s pairs = Inl Exhausted"
    from x obtain key r0 where k: "scanstring s = Inr (key, r0)"
      using scanstring_not_exhausted [of s] by (auto split: sum.splits)
    from x k obtain colon r1 where c: "skip_ws r0 = colon # r1"
      by (auto split: list.splits)
    from x k c have cc: "\<not> colon \<noteq> CHR '':''" by (auto split: if_splits)
    have l0: "length r0 < length s" using k by (rule scanstring_shorter)
    have l1: "length r1 < length r0" using c by (rule skip_ws_Cons_length)
    have "length (skip_ws r1) < n"
      using skip_ws_length [of r1] l0 l1 5(3) by simp
    then have "scan_once n (skip_ws r1) \<noteq> Inl Exhausted"
      using 5(1) [OF k refl c cc] by simp
    with x k c cc obtain v1 r2 where o: "scan_once n (skip_ws r1) = Inr (v1, r2)"
      by (auto split: sum.splits)
    from x k c cc o obtain d r3 where e: "skip_ws r2 = d # r3"
      by (auto split: list.splits)
    have "length r2 < length (skip_ws r1)" using o by (rule scan_shorter(1))
    then have l2: "length r2 < length r1" using skip_ws_length [of r1] by simp
    have l3: "length r3 < length r2" using e by (rule skip_ws_Cons_length)
    have d: "d \<noteq> CHR ''}''" using x k c cc o e by auto
    then have dc: "d = CHR '',''" using x k c cc o e by (auto split: if_splits)
    then obtain q r4 where f: "skip_ws r3 = q # r4"
      using x k c cc o e d by (auto split: list.splits)
    then have qq: "q = CHR 0x22"
      and m: "scan_members n r4 (pairs @ [(key, v1)]) = Inl Exhausted"
      using x k c cc o e d dc by (auto split: if_splits)
    have l4: "length r4 < length r3" using f by (rule skip_ws_Cons_length)
    have "length r4 < n" using l0 l1 l2 l3 l4 5(3) by simp
    then show False using 5(2) [OF k refl c cc o refl e d dc f qq] m by simp
  qed
qed

lemma json_loads_not_exhausted: "json_loads s \<noteq> Inl Exhausted"
proof -
  have "length (skip_ws s) < Suc (length s)" using skip_ws_length [of s] by simp
  then have "scan_once (Suc (length s)) (skip_ws s) \<noteq> Inl Exhausted"
    by (rule scan_not_exhausted(1))
  then show ?thesis by (auto simp: json_loads_def split: sum.splits)
qed

text \<open>
  C9.  For every catalog, which as a Python value holds no package twice and no key twice
  in any of its dictionaries, \<open>loads\<close> succeeds on the text that \<open>dumps\<close> writes and
  returns the catalog itself: the same packages, each with the same \<open>versions\<close> and
  \<open>sources\<close>, as a structure and not only as a text.
\<close>

theorem loads_dumps:
  assumes "dictionaries c"
  shows "loads (dumps c) = Inr c"
  by (simp add: loads_def dumps_def json_loads_dumps [OF unique_keys_catalog [OF assms]]
        json_catalog_catalog_json)

theorem loads_dumps_witness: "dictionaries pillow \<and> loads (dumps pillow) = Inr pillow"
proof -
  have d: "dictionaries pillow" by code_simp
  show ?thesis using loads_dumps [OF d] d by simp
qed

end
